theory Spec2Isabelle
  imports Main "HOL-Library.Monad_Syntax" "HOL-Library.AList"
begin

unbundle bit_operations_syntax

section \<open>Python values\<close>

text \<open>
  A Python \<^verbatim>\<open>str\<close> is a sequence of Unicode code points, so a string is a list of
  code points and a character is a natural number. \<open>py\<close> reads an ASCII literal.
\<close>

type_synonym codepoint = nat
type_synonym pystr = "codepoint list"

definition py :: "string \<Rightarrow> pystr" where
  "py s = map of_char s"

text \<open>
  The values the module receives and returns. \<open>PObj\<close> stands for a value of any other
  type (a float, a tuple, a set, an instance of a user class, ...), identified by
  an opaque tag: the code only ever tests for \<^verbatim>\<open>None\<close>, \<^verbatim>\<open>dict\<close>, \<^verbatim>\<open>list\<close> and
  \<^verbatim>\<open>str\<close>. A \<^verbatim>\<open>dict\<close> is the list of its items in insertion order; its keys are
  strings, as the spec's data model has it.
\<close>

datatype pyval =
    PNone
  | PBool bool
  | PInt int
  | PStr pystr
  | PList "pyval list"
  | PDict "(pystr \<times> pyval) list"
  | PObj nat

fun is_dict :: "pyval \<Rightarrow> bool" where
  "is_dict (PDict items) = True"
| "is_dict v = False"

fun is_list :: "pyval \<Rightarrow> bool" where
  "is_list (PList xs) = True"
| "is_list v = False"

fun is_str :: "pyval \<Rightarrow> bool" where
  "is_str (PStr s) = True"
| "is_str v = False"

text \<open>
  Exceptions. \<^verbatim>\<open>json.JSONDecodeError\<close> is a subclass of \<^verbatim>\<open>ValueError\<close>;
  \<open>OtherError\<close> is any exception outside the classes the module names
  (\<^verbatim>\<open>RecursionError\<close>, \<^verbatim>\<open>MemoryError\<close>, ...).
\<close>

datatype exn = TypeError | ValueError | JSONDecodeError | OverflowError | OtherError nat

fun isinstance_exn :: "exn \<Rightarrow> exn \<Rightarrow> bool" where
  "isinstance_exn JSONDecodeError ValueError = True"
| "isinstance_exn e cls = (e = cls)"

definition except :: "exn list \<Rightarrow> exn \<Rightarrow> bool" where
  "except classes e = list_ex (isinstance_exn e) classes"

subsection \<open>Sequences and dictionaries\<close>

text \<open>
  \<^verbatim>\<open>xs[i]\<close>: a negative index counts from the end, an index out of range raises
  \<^verbatim>\<open>IndexError\<close> (here \<open>None\<close>).
\<close>

definition getitem :: "'a list \<Rightarrow> int \<Rightarrow> 'a option" where
  "getitem xs i =
     (if 0 \<le> i \<and> i < int (length xs) then Some (xs ! nat i)
      else if i < 0 \<and> - int (length xs) \<le> i then Some (xs ! nat (int (length xs) + i))
      else None)"

text \<open>
  \<^verbatim>\<open>d[k] = v\<close> replaces the value of a key that is present, keeping its position, and
  appends a new key: this is \<open>AList.update\<close>. A dict display or comprehension stores
  its items from left to right; \<^verbatim>\<open>d.get(k, default)\<close> looks a key up.
\<close>

definition dict_of_items :: "('k \<times> 'v) list \<Rightarrow> ('k \<times> 'v) list" where
  "dict_of_items items = foldl (\<lambda>d (k, v). AList.update k v d) [] items"

definition dict_get :: "('k \<times> 'v) list \<Rightarrow> 'k \<Rightarrow> 'v \<Rightarrow> 'v" where
  "dict_get d k dflt = (case map_of d k of Some v \<Rightarrow> v | None \<Rightarrow> dflt)"

section \<open>Character classification\<close>

text \<open>
  \<^verbatim>\<open>str.isupper\<close>, \<^verbatim>\<open>str.islower\<close>, \<^verbatim>\<open>str.isalnum\<close> and \<^verbatim>\<open>str.lower\<close> on a
  one-character string read the Unicode character database of the interpreter, which is
  not part of the repository: the database is a parameter \<open>U\<close> of every function that
  uses it. \<open>lower\<close> returns a string, since the lower-case form of one character can
  be longer than one character (U+0130).
\<close>

record chartable =
  isupper :: "codepoint \<Rightarrow> bool"
  islower :: "codepoint \<Rightarrow> bool"
  isalnum :: "codepoint \<Rightarrow> bool"
  lower :: "codepoint \<Rightarrow> pystr"

text \<open>What every Python version's database says about the ASCII characters.\<close>

definition ascii_upper :: "codepoint \<Rightarrow> bool" where
  "ascii_upper c \<longleftrightarrow> 65 \<le> c \<and> c \<le> 90"

definition ascii_lower :: "codepoint \<Rightarrow> bool" where
  "ascii_lower c \<longleftrightarrow> 97 \<le> c \<and> c \<le> 122"

definition ascii_digit :: "codepoint \<Rightarrow> bool" where
  "ascii_digit c \<longleftrightarrow> 48 \<le> c \<and> c \<le> 57"

definition ascii_tables :: "chartable \<Rightarrow> bool" where
  "ascii_tables U \<longleftrightarrow>
     (\<forall>c<128. isupper U c = ascii_upper c \<and>
              islower U c = ascii_lower c \<and>
              isalnum U c = (ascii_digit c \<or> ascii_upper c \<or> ascii_lower c) \<and>
              lower U c = [if ascii_upper c then c + 32 else c])"

text \<open>
  No character has an empty lower-case form, and only the underscore has a lower-case
  form that ends with an underscore.
\<close>

definition lower_regular :: "chartable \<Rightarrow> bool" where
  "lower_regular U \<longleftrightarrow> (\<forall>c. lower U c \<noteq> [] \<and> (last (lower U c) = 95 \<longrightarrow> lower U c = [95]))"

definition python_ucd :: "chartable \<Rightarrow> bool" where
  "python_ucd U \<longleftrightarrow> ascii_tables U \<and> lower_regular U"

text \<open>
  A fragment of the database: the ASCII characters and U+03D2 (GREEK UPSILON WITH HOOK
  SYMBOL), an upper-case letter without a lower-case form, for which Python gives
  \<^verbatim>\<open>'\u03d2'.isupper() == True\<close>, \<^verbatim>\<open>'\u03d2'.isalnum() == True\<close> and
  \<^verbatim>\<open>'\u03d2'.lower() == '\u03d2'\<close>. The fragment treats every other character as
  caseless.
\<close>

definition ucd_fragment :: chartable where
  "ucd_fragment = \<lparr>
     isupper = (\<lambda>c. ascii_upper c \<or> c = 0x3D2),
     islower = ascii_lower,
     isalnum = (\<lambda>c. ascii_digit c \<or> ascii_upper c \<or> ascii_lower c \<or> c = 0x3D2),
     lower = (\<lambda>c. [if ascii_upper c then c + 32 else c]) \<rparr>"

section \<open>The case converter\<close>

text \<open>
  \<^verbatim>\<open>to_snake_case\<close>, lines 37 to 61. \<open>snake_step\<close> is the body of the loop at index
  \<open>i\<close>, \<open>snake_loop\<close> the loop over \<^verbatim>\<open>range(1, len(string))\<close>; \<open>result\<close> is the list of
  strings that \<^verbatim>\<open>''.join\<close> concatenates at the end. Every subscript of the source is a
  \<open>getitem\<close>, so that an \<^verbatim>\<open>IndexError\<close> would make the function return \<open>None\<close>.
\<close>

definition snake_step :: "chartable \<Rightarrow> pystr \<Rightarrow> pystr list \<Rightarrow> nat \<Rightarrow> pystr list option" where
  "snake_step U string result i = do {
     curr \<leftarrow> getitem string (int i);
     prev \<leftarrow> getitem string (int i - 1);
     next_char \<leftarrow> (if int i < int (length string) - 1
                    then map_option Some (getitem string (int i + 1)) else Some None);
     result1 \<leftarrow> (if isupper U curr \<and>
                     ((isalnum U prev \<and> \<not> isupper U prev) \<or>
                      (case next_char of None \<Rightarrow> False | Some n \<Rightarrow> islower U n))
                  then do { l \<leftarrow> getitem result (- 1);
                            Some (if l \<noteq> [95] then result @ [[95]] else result) }
                  else Some result);
     Some (result1 @ [lower U curr]) }"

fun snake_loop :: "chartable \<Rightarrow> pystr \<Rightarrow> nat list \<Rightarrow> pystr list \<Rightarrow> pystr list option" where
  "snake_loop U string [] result = Some result"
| "snake_loop U string (i # is) result =
     do { r \<leftarrow> snake_step U string result i; snake_loop U string is r }"

definition to_snake_case :: "chartable \<Rightarrow> pystr \<Rightarrow> pystr option" where
  "to_snake_case U string =
     (if string = [] then Some string
      else do { c0 \<leftarrow> getitem string 0;
                r \<leftarrow> snake_loop U string [1..<length string] [lower U c0];
                Some (concat r) })"

text \<open>
  The loop without its subscripts: \<open>snake_pieces U result prev rest\<close> is the list
  \<open>result\<close> after the iterations that read \<open>rest\<close>, the loop standing after the
  character \<open>prev\<close>. Lemma \<open>snake_loop_pieces\<close> shows that the loop computes it.
\<close>

fun snake_pieces :: "chartable \<Rightarrow> pystr list \<Rightarrow> codepoint \<Rightarrow> pystr \<Rightarrow> pystr list" where
  "snake_pieces U result prev [] = result"
| "snake_pieces U result prev (cur # rest) =
     snake_pieces U
       ((if isupper U cur \<and>
            ((isalnum U prev \<and> \<not> isupper U prev) \<or> (rest \<noteq> [] \<and> islower U (hd rest))) \<and>
            last result \<noteq> [95]
         then result @ [[95]] else result) @ [lower U cur])
       cur rest"

text \<open>
  The scan as the specification words it: the output so far, the previous character, the
  characters still to read. An underscore goes before \<open>cur\<close> when \<open>cur\<close> is upper
  case and either the previous character is alphanumeric and not upper case or the next
  character exists and is lower case, unless the output already ends with an underscore.
\<close>

definition spec_underscore_before ::
    "chartable \<Rightarrow> pystr \<Rightarrow> codepoint \<Rightarrow> codepoint \<Rightarrow> pystr \<Rightarrow> bool" where
  "spec_underscore_before U out prev cur rest \<longleftrightarrow>
     isupper U cur \<and>
     ((isalnum U prev \<and> \<not> isupper U prev) \<or> (rest \<noteq> [] \<and> islower U (hd rest))) \<and>
     \<not> (out \<noteq> [] \<and> last out = 95)"

fun spec_scan :: "chartable \<Rightarrow> pystr \<Rightarrow> codepoint \<Rightarrow> pystr \<Rightarrow> pystr" where
  "spec_scan U out prev [] = out"
| "spec_scan U out prev (cur # rest) =
     spec_scan U
       (out @ (if spec_underscore_before U out prev cur rest then [95] else []) @ lower U cur)
       cur rest"

fun spec_to_snake_case :: "chartable \<Rightarrow> pystr \<Rightarrow> pystr" where
  "spec_to_snake_case U [] = []"
| "spec_to_snake_case U (c # cs) = spec_scan U (lower U c) c cs"

text \<open>
  A character whose lower-case form holds no upper-case character and is left as it is
  by a second lower-casing. Every ASCII character is one.
\<close>

definition plain :: "chartable \<Rightarrow> codepoint \<Rightarrow> bool" where
  "plain U d \<longleftrightarrow> \<not> isupper U d \<and> lower U d = [d]"

definition lower_stable :: "chartable \<Rightarrow> codepoint \<Rightarrow> bool" where
  "lower_stable U c \<longleftrightarrow> list_all (plain U) (lower U c)"

section \<open>The dictionary key converter\<close>

text \<open>
  \<^verbatim>\<open>convert_dict_keys_to_snake_case\<close>, lines 83 to 89. \<open>convert_items\<close> is the dict
  comprehension: it reads the items in order, evaluates the key expression, then the
  value expression, and stores the pair in the dictionary \<open>d\<close> under construction.
\<close>

fun convert_dict_keys_to_snake_case :: "chartable \<Rightarrow> pyval \<Rightarrow> pyval option"
  and convert_items ::
    "chartable \<Rightarrow> (pystr \<times> pyval) list \<Rightarrow> (pystr \<times> pyval) list \<Rightarrow> (pystr \<times> pyval) list option"
where
  "convert_dict_keys_to_snake_case U (PDict items) = map_option PDict (convert_items U items [])"
| "convert_dict_keys_to_snake_case U PNone = Some PNone"
| "convert_dict_keys_to_snake_case U (PBool b) = Some (PBool b)"
| "convert_dict_keys_to_snake_case U (PInt n) = Some (PInt n)"
| "convert_dict_keys_to_snake_case U (PStr s) = Some (PStr s)"
| "convert_dict_keys_to_snake_case U (PList xs) = Some (PList xs)"
| "convert_dict_keys_to_snake_case U (PObj t) = Some (PObj t)"
| "convert_items U [] d = Some d"
| "convert_items U ((key, val) # rest) d =
     do { k \<leftarrow> to_snake_case U key;
          v \<leftarrow> convert_dict_keys_to_snake_case U val;
          convert_items U rest (AList.update k v d) }"

section \<open>The JSON helpers\<close>

text \<open>
  \<^verbatim>\<open>json.dumps\<close> and \<^verbatim>\<open>json.loads\<close> belong to the standard library: they are the
  parameters \<open>dumps\<close> and \<open>loads\<close>, which return a value or the exception they raise.
  A function of the module returns \<open>Inl e\<close> when the exception \<open>e\<close> leaves it. The
  calls of \<^verbatim>\<open>logging.warning\<close> are left out.
\<close>

definition startswith :: "pystr \<Rightarrow> pystr \<Rightarrow> bool" where
  "startswith s prefix \<longleftrightarrow> take (length prefix) s = prefix"

text \<open>\<^verbatim>\<open>safe_json_dumps\<close>, lines 144 to 164; an omitted \<open>default\<close> is \<open>PNone\<close>.\<close>

definition safe_json_dumps :: "(pyval \<Rightarrow> exn + pystr) \<Rightarrow> pyval \<Rightarrow> pyval \<Rightarrow> exn + pyval" where
  "safe_json_dumps dumps data dflt =
     (let dflt1 = (if dflt = PNone then PStr (py ''{}'') else dflt);
          output = dflt1
      in case dumps data of
           Inr s \<Rightarrow> Inr (PStr s)
         | Inl e \<Rightarrow> if except [TypeError, ValueError, OverflowError] e then Inr output else Inl e)"

text \<open>
  \<^verbatim>\<open>safe_json_loads\<close>, lines 179 to 206. \<open>second_decode\<close> is the inner
  \<^verbatim>\<open>try\<close> statement with the \<^verbatim>\<open>return result\<close> that follows it, \<open>loads_body\<close> the body
  of the outer \<^verbatim>\<open>try\<close>.
\<close>

definition second_decode :: "(pystr \<Rightarrow> exn + pyval) \<Rightarrow> pystr \<Rightarrow> exn + pyval" where
  "second_decode loads result =
     (if startswith result (py ''{'') \<or> startswith result (py ''['')
      then (case loads result of
              Inr second_result \<Rightarrow> Inr second_result
            | Inl e \<Rightarrow> if except [TypeError, ValueError, JSONDecodeError] e
                       then Inr (PStr result) else Inl e)
      else Inr (PStr result))"

definition loads_body :: "(pystr \<Rightarrow> exn + pyval) \<Rightarrow> pyval \<Rightarrow> pyval \<Rightarrow> bool \<Rightarrow> exn + pyval" where
  "loads_body loads data dflt attempt_double_decode =
     (case data of
        PStr s \<Rightarrow>
          (case loads s of
             Inl e \<Rightarrow> Inl e
           | Inr result \<Rightarrow>
               (case result of
                  PStr r \<Rightarrow> if attempt_double_decode then second_decode loads r else Inr result
                | _ \<Rightarrow> Inr result))
      | _ \<Rightarrow> Inr dflt)"

definition safe_json_loads ::
    "(pystr \<Rightarrow> exn + pyval) \<Rightarrow> pyval \<Rightarrow> pyval \<Rightarrow> bool \<Rightarrow> exn + pyval" where
  "safe_json_loads loads data dflt attempt_double_decode =
     (if data = PNone then Inr dflt
      else if is_dict data \<or> is_list data then Inr data
      else (case loads_body loads data dflt attempt_double_decode of
              Inr v \<Rightarrow> Inr v
            | Inl e \<Rightarrow> if except [TypeError, ValueError, JSONDecodeError] e
                       then Inr dflt else Inl e))"

text \<open>
  Stand-ins for \<^verbatim>\<open>json.loads\<close> and \<^verbatim>\<open>json.dumps\<close>, for evaluating the helpers on
  concrete inputs: they answer as the library does on the few inputs they list, and
  report an error on every other one. \<open>double_encoded\<close> is the JSON text of a string that holds a JSON object.
\<close>

definition double_encoded :: pystr where
  \<open>double_encoded = py ''"{'' @ [92] @ py ''"a'' @ [92] @ py ''":1}"''\<close>

definition loads_fragment :: "pystr \<Rightarrow> exn + pyval" where
  \<open>loads_fragment s =
     (if s = double_encoded then Inr (PStr (py ''{"a":1}''))
      else if s = py ''{"a":1}'' then Inr (PDict [(py ''a'', PInt 1)])
      else if s = py ''"{a"'' then Inr (PStr (py ''{a''))
      else if s = py ''"a"'' then Inr (PStr (py ''a''))
      else if s = py ''[1, 2]'' then Inr (PList [PInt 1, PInt 2])
      else Inl JSONDecodeError)\<close>

definition dumps_fragment :: "pyval \<Rightarrow> exn + pystr" where
  \<open>dumps_fragment data =
     (if data = PDict [(py ''a'', PInt 1)] then Inr (py ''{"a": 1}'')
      else if data = PNone then Inr (py ''null'')
      else Inl TypeError)\<close>

section \<open>The UUID validators\<close>

subsection \<open>The string methods and the number format the standard library uses\<close>

text \<open>
  \<^verbatim>\<open>s.replace(old, new)\<close> replaces the occurrences of \<open>old\<close> from left to right, without
  overlap; \<^verbatim>\<open>s.strip(chars)\<close> drops the leading and the trailing characters that are in
  \<open>chars\<close>.
\<close>

function replace_from :: "pystr \<Rightarrow> pystr \<Rightarrow> pystr \<Rightarrow> pystr" where
  "replace_from old new [] = []"
| "replace_from old new (c # cs) =
     (if old \<noteq> [] \<and> startswith (c # cs) old
      then new @ replace_from old new (drop (length old) (c # cs))
      else c # replace_from old new cs)"
  by pat_completeness auto
termination
  by (relation "measure (\<lambda>(old, new, s). length s)") auto

definition str_replace :: "pystr \<Rightarrow> pystr \<Rightarrow> pystr \<Rightarrow> pystr" where
  "str_replace s old new =
     (if old = [] then new @ concat (map (\<lambda>c. c # new) s) else replace_from old new s)"

definition strip :: "pystr \<Rightarrow> pystr \<Rightarrow> pystr" where
  "strip s chars =
     rev (dropWhile (\<lambda>c. c \<in> set chars) (rev (dropWhile (\<lambda>c. c \<in> set chars) s)))"

text \<open>
  \<^verbatim>\<open>'%032x' % n\<close>: the hexadecimal digits of \<open>n\<close> in lower case, after the sign if \<open>n\<close>
  is negative, with zeros to a width of at least 32.
\<close>

definition hexchar :: "nat \<Rightarrow> codepoint" where
  "hexchar d = (if d < 10 then 48 + d else 87 + d)"

function hex_digits :: "nat \<Rightarrow> pystr" where
  "hex_digits n = (if n < 16 then [hexchar n] else hex_digits (n div 16) @ [hexchar (n mod 16)])"
  by pat_completeness auto
termination
  by (relation "measure id") auto

declare hex_digits.simps [simp del]

definition zfill :: "nat \<Rightarrow> pystr \<Rightarrow> pystr" where
  "zfill width s = replicate (width - length s) 48 @ s"

definition format_032x :: "int \<Rightarrow> pystr" where
  "format_032x n =
     (if n < 0 then 45 # zfill 31 (hex_digits (nat (- n))) else zfill 32 (hex_digits (nat n)))"

subsection \<open>The class \<^verbatim>\<open>uuid.UUID\<close>\<close>

text \<open>
  The module calls \<^verbatim>\<open>UUID(hex, version=v)\<close> and \<^verbatim>\<open>str\<close> of the object. Both are
  written in Python in the standard library (\<^verbatim>\<open>Lib/uuid.py\<close>), and are modelled from
  there; a UUID object is its field \<^verbatim>\<open>int\<close>. The constructor, for a string:
  \<^verbatim>\<open>
    hex = hex.replace('urn:', '').replace('uuid:', '')
    hex = hex.strip('{}').replace('-', '')
    if len(hex) != 32:
        raise ValueError('badly formed hexadecimal UUID string')
    int = int_(hex, 16)
    if not 0 <= int < 1<<128:
        raise ValueError('int is out of range (need a 128-bit value)')
    if version is not None:
        if not 1 <= version <= 5:
            raise ValueError('illegal version number')
        int &= ~(0xc000 << 48)
        int |= 0x8000 << 48
        int &= ~(0xf000 << 64)
        int |= version << 76
  \<close>
  and the conversion to a string:
  \<^verbatim>\<open>
    hex = '%032x' % self.int
    return '%s-%s-%s-%s-%s' % (hex[:8], hex[8:12], hex[12:16], hex[16:20], hex[20:])
  \<close>
  The builtin \<^verbatim>\<open>int(hex, 16)\<close> is the parameter \<open>int16\<close>; it returns \<open>None\<close> when the
  builtin raises \<^verbatim>\<open>ValueError\<close>, the one exception it raises on a string. The text is
  that of Python 3.12; later releases admit the versions up to 8, which changes nothing
  for the versions 1, 3, 4 and 5 that the module probes.
\<close>

definition set_version :: "int \<Rightarrow> int \<Rightarrow> int" where
  "set_version n version =
     (let n1 = n AND NOT (push_bit 48 0xc000);
          n2 = n1 OR push_bit 48 0x8000;
          n3 = n2 AND NOT (push_bit 64 0xf000)
      in n3 OR push_bit 76 version)"

definition UUID :: "(pystr \<Rightarrow> int option) \<Rightarrow> pystr \<Rightarrow> int option \<Rightarrow> exn + int" where
  "UUID int16 hex version =
     (let hex1 = str_replace (str_replace hex (py ''urn:'') []) (py ''uuid:'') [];
          hex2 = str_replace (strip hex1 (py ''{}'')) (py ''-'') []
      in if length hex2 \<noteq> 32 then Inl ValueError
         else case int16 hex2 of
                None \<Rightarrow> Inl ValueError
              | Some n \<Rightarrow>
                  if \<not> (0 \<le> n \<and> n < push_bit 128 1) then Inl ValueError
                  else case version of
                         None \<Rightarrow> Inr n
                       | Some v \<Rightarrow> if \<not> (1 \<le> v \<and> v \<le> 5) then Inl ValueError
                                   else Inr (set_version n v))"

definition hyphenate :: "pystr \<Rightarrow> pystr" where
  "hyphenate hex =
     take 8 hex @ 45 # take 4 (drop 8 hex) @ 45 # take 4 (drop 12 hex) @ 45 #
     take 4 (drop 16 hex) @ 45 # drop 20 hex"

definition uuid_str :: "int \<Rightarrow> pystr" where
  "uuid_str n = hyphenate (format_032x n)"

subsection \<open>The functions of the module\<close>

text \<open>
  \<^verbatim>\<open>get_uuid_version\<close>, lines 97 to 108, with \<open>uuid_probe\<close> for its loop, and
  \<^verbatim>\<open>is_valid_uuid\<close>, lines 111 to 141. The candidate of \<^verbatim>\<open>is_valid_uuid\<close> is a string or
  \<^verbatim>\<open>None\<close>, its version an integer or \<^verbatim>\<open>None\<close>.
\<close>

definition SUPPORTED_UUID_VERSIONS :: "int list" where
  "SUPPORTED_UUID_VERSIONS = [1, 3, 4, 5]"

fun uuid_probe :: "(pystr \<Rightarrow> int option) \<Rightarrow> pystr \<Rightarrow> int list \<Rightarrow> exn + int option" where
  "uuid_probe int16 uid [] = Inr None"
| "uuid_probe int16 uid (version # rest) =
     (case UUID int16 uid (Some version) of
        Inl e \<Rightarrow> if except [ValueError] e then uuid_probe int16 uid rest else Inl e
      | Inr uuid_obj \<Rightarrow>
          if uuid_str uuid_obj = uid then Inr (Some version) else uuid_probe int16 uid rest)"

definition get_uuid_version :: "(pystr \<Rightarrow> int option) \<Rightarrow> pystr \<Rightarrow> exn + int option" where
  "get_uuid_version int16 uid = uuid_probe int16 uid SUPPORTED_UUID_VERSIONS"

definition is_valid_uuid ::
    "(pystr \<Rightarrow> int option) \<Rightarrow> pystr option \<Rightarrow> int option \<Rightarrow> exn + bool" where
  "is_valid_uuid int16 uuid_to_test version =
     (case uuid_to_test of
        None \<Rightarrow> Inr False
      | Some s \<Rightarrow>
          if s = [] then Inr False
          else case version of
                 None \<Rightarrow> (case get_uuid_version int16 s of
                             Inl e \<Rightarrow> Inl e
                           | Inr found \<Rightarrow> Inr (found \<noteq> None))
               | Some v \<Rightarrow>
                   (case UUID int16 s (Some v) of
                      Inl e \<Rightarrow> if except [ValueError] e then Inr False else Inl e
                    | Inr uuid_obj \<Rightarrow> Inr (uuid_str uuid_obj = s)))"

subsection \<open>What the claims speak of\<close>

text \<open>
  A probe of version \<open>v\<close> matches when the construction does not fail and the string of
  the constructed UUID is the input.
\<close>

definition spec_version_matches :: "(pystr \<Rightarrow> int option) \<Rightarrow> pystr \<Rightarrow> int \<Rightarrow> bool" where
  "spec_version_matches int16 uid v \<longleftrightarrow>
     (case UUID int16 uid (Some v) of Inl e \<Rightarrow> False | Inr u \<Rightarrow> uuid_str u = uid)"

text \<open>
  Lower-case hexadecimal digits and their value. \<open>hex_parser int16\<close> says what the
  properties below need of \<^verbatim>\<open>int(hex, 16)\<close>: that it reads a string of 32 lower-case
  hexadecimal digits as the number they denote. \<open>int16_strict\<close> is a stand-in that does
  so and rejects every other string. \<open>hexstr k m\<close> is \<open>m\<close> written with \<open>k\<close> digits.
\<close>

definition lhex :: "codepoint \<Rightarrow> bool" where
  "lhex c \<longleftrightarrow> ascii_digit c \<or> (97 \<le> c \<and> c \<le> 102)"

definition hexval_char :: "codepoint \<Rightarrow> nat" where
  "hexval_char c = (if ascii_digit c then c - 48 else c - 87)"

definition hexval :: "pystr \<Rightarrow> nat" where
  "hexval ds = foldl (\<lambda>a d. 16 * a + hexval_char d) 0 ds"

definition hex_parser :: "(pystr \<Rightarrow> int option) \<Rightarrow> bool" where
  "hex_parser int16 \<longleftrightarrow>
     (\<forall>ds. length ds = 32 \<and> list_all lhex ds \<longrightarrow> int16 ds = Some (int (hexval ds)))"

definition int16_strict :: "pystr \<Rightarrow> int option" where
  "int16_strict ds = (if ds \<noteq> [] \<and> list_all lhex ds then Some (int (hexval ds)) else None)"

fun hexstr :: "nat \<Rightarrow> nat \<Rightarrow> pystr" where
  "hexstr 0 m = []"
| "hexstr (Suc k) m = hexstr k (m div 16) @ [hexchar (m mod 16)]"

text \<open>
  The canonical form of a UUID: 32 lower-case hexadecimal digits in groups of 8, 4, 4, 4
  and 12, with hyphens between the groups. The string of a version-\<open>v\<close> UUID of RFC 4122
  has the digit \<open>v\<close> at index 14 and one of \<^verbatim>\<open>8\<close>, \<^verbatim>\<open>9\<close>, \<^verbatim>\<open>a\<close>, \<^verbatim>\<open>b\<close> (the variant
  bits 1 0) at index 19.
\<close>

definition canonical_uuid :: "pystr \<Rightarrow> bool" where
  "canonical_uuid s \<longleftrightarrow>
     (let ds = filter (\<lambda>c. c \<noteq> 45) s
      in length ds = 32 \<and> list_all lhex ds \<and> s = hyphenate ds)"

definition rfc4122_string :: "int \<Rightarrow> pystr \<Rightarrow> bool" where
  "rfc4122_string v s \<longleftrightarrow>
     canonical_uuid s \<and> 0 \<le> v \<and> v < 16 \<and> s ! 14 = hexchar (nat v) \<and>
     s ! 19 \<in> {56, 57, 97, 98}"

section \<open>The operator translator\<close>

text \<open>\<^verbatim>\<open>convert_operator\<close>, lines 209 to 235.\<close>

definition convert_operator :: "pystr \<Rightarrow> bool \<Rightarrow> pystr" where
  "convert_operator operator case_insensitive =
     (let operator_map = dict_of_items [
            (py ''contains'', if case_insensitive then py ''ILIKE'' else py ''LIKE''),
            (py ''does not contain'', if case_insensitive then py ''NOT ILIKE'' else py ''NOT LIKE''),
            (py ''is empty'', py ''IS NULL''),
            (py ''is not empty'', py ''IS NOT NULL''),
            (py ''='', py ''=''),
            (py ''!='', py ''!=''),
            (py ''<'', py ''<''),
            (py ''>'', py ''>''),
            (py ''<='', py ''<=''),
            (py ''>='', py ''>='')]
      in dict_get operator_map operator (if case_insensitive then py ''ILIKE'' else py ''=''))"

section \<open>The interpreter's stack\<close>

text \<open>
  Every activation of a Python function takes a frame of the interpreter's stack, and a
  call for which no frame is left raises \<^verbatim>\<open>RecursionError\<close>. The number of frames is
  \<^verbatim>\<open>sys.getrecursionlimit()\<close>, 1000 unless the program sets another. Up to Python 3.11 a
  dict comprehension runs in a frame of its own, and the call of a builtin method
  (\<^verbatim>\<open>str.lower\<close>, \<^verbatim>\<open>dict.items\<close>, \<^verbatim>\<open>dict.get\<close>, ...) counts as one more level while it
  runs; from Python 3.12 on neither does. These two numbers are the fields of \<open>interp\<close>.
\<close>

record interp =
  comprehension_frames :: nat
  method_frames :: nat

definition cpython311 :: interp where
  "cpython311 = \<lparr>comprehension_frames = 1, method_frames = 1\<rparr>"

definition cpython312 :: interp where
  "cpython312 = \<lparr>comprehension_frames = 0, method_frames = 0\<rparr>"

datatype raised = RecursionError | IndexError

text \<open>
  The three functions on a stack with \<open>frames\<close> frames left at the call. An activation
  takes one frame. \<^verbatim>\<open>to_snake_case\<close> calls builtin methods unless the string is empty,
  \<^verbatim>\<open>convert_operator\<close> calls \<^verbatim>\<open>operator_map.get\<close>. \<^verbatim>\<open>convert_dict_keys_to_snake_case\<close>
  tests \<^verbatim>\<open>isinstance\<close>, which takes no level, then calls \<^verbatim>\<open>data.items()\<close>, enters the
  comprehension, and calls \<^verbatim>\<open>to_snake_case\<close> and itself from there for every item.
\<close>

definition to_snake_case_frames :: "interp \<Rightarrow> chartable \<Rightarrow> nat \<Rightarrow> pystr \<Rightarrow> raised + pystr" where
  "to_snake_case_frames I U frames string =
     (if frames < 1 then Inl RecursionError
      else if string = [] then Inr string
      else if frames - 1 < method_frames I then Inl RecursionError
      else case to_snake_case U string of None \<Rightarrow> Inl IndexError | Some r \<Rightarrow> Inr r)"

definition convert_operator_frames :: "interp \<Rightarrow> nat \<Rightarrow> pystr \<Rightarrow> bool \<Rightarrow> raised + pystr" where
  "convert_operator_frames I frames operator case_insensitive =
     (if frames < 1 then Inl RecursionError
      else if frames - 1 < method_frames I then Inl RecursionError
      else Inr (convert_operator operator case_insensitive))"

fun convert_dict_keys_to_snake_case_frames ::
    "interp \<Rightarrow> chartable \<Rightarrow> nat \<Rightarrow> pyval \<Rightarrow> raised + pyval"
  and convert_items_frames ::
    "interp \<Rightarrow> chartable \<Rightarrow> nat \<Rightarrow> (pystr \<times> pyval) list \<Rightarrow> (pystr \<times> pyval) list \<Rightarrow>
       raised + (pystr \<times> pyval) list"
where
  "convert_dict_keys_to_snake_case_frames I U 0 data = Inl RecursionError"
| "convert_dict_keys_to_snake_case_frames I U (Suc m) (PDict items) =
     (if m < method_frames I then Inl RecursionError
      else if m < comprehension_frames I then Inl RecursionError
      else case convert_items_frames I U (m - comprehension_frames I) items [] of
             Inl e \<Rightarrow> Inl e
           | Inr d \<Rightarrow> Inr (PDict d))"
| "convert_dict_keys_to_snake_case_frames I U (Suc m) PNone = Inr PNone"
| "convert_dict_keys_to_snake_case_frames I U (Suc m) (PBool b) = Inr (PBool b)"
| "convert_dict_keys_to_snake_case_frames I U (Suc m) (PInt n) = Inr (PInt n)"
| "convert_dict_keys_to_snake_case_frames I U (Suc m) (PStr s) = Inr (PStr s)"
| "convert_dict_keys_to_snake_case_frames I U (Suc m) (PList xs) = Inr (PList xs)"
| "convert_dict_keys_to_snake_case_frames I U (Suc m) (PObj t) = Inr (PObj t)"
| "convert_items_frames I U frames [] d = Inr d"
| "convert_items_frames I U frames ((key, val) # rest) d =
     (case to_snake_case_frames I U frames key of
        Inl e \<Rightarrow> Inl e
      | Inr k \<Rightarrow>
          (case convert_dict_keys_to_snake_case_frames I U frames val of
             Inl e \<Rightarrow> Inl e
           | Inr v \<Rightarrow> convert_items_frames I U frames rest (AList.update k v d)))"

text \<open>
  The frames a call needs, the nesting depth of the dictionaries of a value (through the
  values of dictionaries, the only place where the function recurses), and the
  dictionary nested \<open>k\<close> deep, \<^verbatim>\<open>{'a': {'a': ... None}}\<close>.
\<close>

definition snake_need :: "interp \<Rightarrow> pystr \<Rightarrow> nat" where
  "snake_need I s = (if s = [] then 1 else 1 + method_frames I)"

fun frames_needed :: "interp \<Rightarrow> pyval \<Rightarrow> nat"
  and items_need :: "interp \<Rightarrow> (pystr \<times> pyval) list \<Rightarrow> nat"
where
  "frames_needed I (PDict items) =
     Suc (max (method_frames I) (comprehension_frames I + items_need I items))"
| "frames_needed I PNone = 1"
| "frames_needed I (PBool b) = 1"
| "frames_needed I (PInt n) = 1"
| "frames_needed I (PStr s) = 1"
| "frames_needed I (PList xs) = 1"
| "frames_needed I (PObj t) = 1"
| "items_need I [] = 0"
| "items_need I ((key, val) # rest) =
     max (max (snake_need I key) (frames_needed I val)) (items_need I rest)"

fun dict_depth :: "pyval \<Rightarrow> nat"
  and items_depth :: "(pystr \<times> pyval) list \<Rightarrow> nat"
where
  "dict_depth (PDict items) = Suc (items_depth items)"
| "dict_depth PNone = 0"
| "dict_depth (PBool b) = 0"
| "dict_depth (PInt n) = 0"
| "dict_depth (PStr s) = 0"
| "dict_depth (PList xs) = 0"
| "dict_depth (PObj t) = 0"
| "items_depth [] = 0"
| "items_depth ((key, val) # rest) = max (dict_depth val) (items_depth rest)"

fun nested :: "nat \<Rightarrow> pyval" where
  "nested 0 = PNone"
| "nested (Suc k) = PDict [(py ''a'', nested k)]"

section \<open>Properties of the operator translator\<close>

lemma operator_map_eval:
  "dict_of_items [
      (py ''contains'', a), (py ''does not contain'', b),
      (py ''is empty'', c), (py ''is not empty'', d),
      (py ''='', py ''=''), (py ''!='', py ''!=''), (py ''<'', py ''<''),
      (py ''>'', py ''>''), (py ''<='', py ''<=''), (py ''>='', py ''>='')]
   = [(py ''contains'', a), (py ''does not contain'', b),
      (py ''is empty'', c), (py ''is not empty'', d),
      (py ''='', py ''=''), (py ''!='', py ''!=''), (py ''<'', py ''<''),
      (py ''>'', py ''>''), (py ''<='', py ''<=''), (py ''>='', py ''>='')]"
  by (simp add: dict_of_items_def py_def)

text \<open>
  Claim C8. \<^verbatim>\<open>convert_operator\<close> maps \<^verbatim>\<open>contains\<close> to \<^verbatim>\<open>ILIKE\<close> or \<^verbatim>\<open>LIKE\<close>,
  \<^verbatim>\<open>does not contain\<close> to \<^verbatim>\<open>NOT ILIKE\<close> or \<^verbatim>\<open>NOT LIKE\<close> (the first when the flag is
  set), \<^verbatim>\<open>is empty\<close> to \<^verbatim>\<open>IS NULL\<close>, \<^verbatim>\<open>is not empty\<close> to \<^verbatim>\<open>IS NOT NULL\<close>, each of the
  six comparison operators to itself whatever the flag, and every other string to
  \<^verbatim>\<open>ILIKE\<close> when the flag is set and to \<^verbatim>\<open>=\<close> when it is not.
\<close>

theorem convert_operator_table:
  "convert_operator operator case_insensitive =
     (if operator = py ''contains'' then (if case_insensitive then py ''ILIKE'' else py ''LIKE'')
      else if operator = py ''does not contain''
        then (if case_insensitive then py ''NOT ILIKE'' else py ''NOT LIKE'')
      else if operator = py ''is empty'' then py ''IS NULL''
      else if operator = py ''is not empty'' then py ''IS NOT NULL''
      else if operator \<in> {py ''='', py ''!='', py ''<'', py ''>'', py ''<='', py ''>=''}
        then operator
      else if case_insensitive then py ''ILIKE'' else py ''='')"
  unfolding convert_operator_def Let_def operator_map_eval
  by (simp add: dict_get_def py_def)

section \<open>Properties of the case converter\<close>

lemma getitem_nth: "i < length xs \<Longrightarrow> getitem xs (int i) = Some (xs ! i)"
  by (simp add: getitem_def)

lemma getitem_pred: "0 < i \<Longrightarrow> i \<le> length xs \<Longrightarrow> getitem xs (int i - 1) = Some (xs ! (i - 1))"
  by (cases i) (simp_all add: getitem_def)

lemma getitem_succ: "Suc i < length xs \<Longrightarrow> getitem xs (int i + 1) = Some (xs ! Suc i)"
  using getitem_nth [of "Suc i" xs] by (simp add: add.commute)

lemma getitem_last: "xs \<noteq> [] \<Longrightarrow> getitem xs (- 1) = Some (last xs)"
  by (cases xs rule: rev_cases) (simp_all add: getitem_def nth_append)

lemma snake_step_at:
  assumes "string = pre @ prev # cur # rest" and "result \<noteq> []"
  shows "snake_step U string result (Suc (length pre)) =
           Some ((if isupper U cur \<and>
                     ((isalnum U prev \<and> \<not> isupper U prev) \<or> (rest \<noteq> [] \<and> islower U (hd rest))) \<and>
                     last result \<noteq> [95]
                  then result @ [[95]] else result) @ [lower U cur])"
proof -
  let ?i = "Suc (length pre)"
  have len: "length string = length pre + 2 + length rest"
    using assms(1) by simp
  have c: "getitem string (int ?i) = Some cur"
    using getitem_nth [of ?i string] len assms(1) by (simp add: nth_append)
  have p: "getitem string (int ?i - 1) = Some prev"
    using getitem_pred [of ?i string] len assms(1) by (simp add: nth_append)
  have n: "(if int ?i < int (length string) - 1
            then map_option Some (getitem string (int ?i + 1)) else Some None)
           = Some (if rest = [] then None else Some (hd rest))"
  proof (cases rest)
    case Nil
    then show ?thesis using len by simp
  next
    case (Cons a as)
    then have "getitem string (int ?i + 1) = Some a"
      using getitem_succ [of ?i string] len assms(1) by (simp add: nth_append)
    then show ?thesis using Cons len by simp
  qed
  show ?thesis
    unfolding snake_step_def c p n
    by (simp add: getitem_last [OF assms(2)])
qed

lemma snake_loop_pieces:
  "string = pre @ prev # rest \<Longrightarrow> result \<noteq> [] \<Longrightarrow>
   snake_loop U string [Suc (length pre)..<length string] result =
     Some (snake_pieces U result prev rest)"
proof (induction rest arbitrary: pre prev result)
  case Nil
  then show ?case by simp
next
  case (Cons cur rest)
  let ?r1 = "(if isupper U cur \<and>
      ((isalnum U prev \<and> \<not> isupper U prev) \<or> (rest \<noteq> [] \<and> islower U (hd rest))) \<and>
      last result \<noteq> [95] then result @ [[95]] else result) @ [lower U cur]"
  have step: "snake_step U string result (Suc (length pre)) = Some ?r1"
    using snake_step_at [OF Cons.prems(1) Cons.prems(2)] .
  have str: "string = (pre @ [prev]) @ cur # rest"
    using Cons.prems(1) by simp
  have "?r1 \<noteq> []" by simp
  from Cons.IH [OF str this]
  have ih: "snake_loop U string [Suc (Suc (length pre))..<length string] ?r1 =
              Some (snake_pieces U ?r1 cur rest)"
    by simp
  have "Suc (length pre) < length string"
    using Cons.prems(1) by simp
  from upt_conv_Cons [OF this]
  have upt: "[Suc (length pre)..<length string] =
               Suc (length pre) # [Suc (Suc (length pre))..<length string]" .
  show ?case
    unfolding upt using step ih by simp
qed

lemma to_snake_case_pieces:
  "to_snake_case U (c # cs) = Some (concat (snake_pieces U [lower U c] c cs))"
proof -
  have "c # cs = [] @ c # cs" by simp
  from snake_loop_pieces [OF this, of "[lower U c]" U]
  have "snake_loop U (c # cs) [Suc 0..<length (c # cs)] [lower U c] =
          Some (snake_pieces U [lower U c] c cs)"
    by simp
  then show ?thesis
    by (simp add: to_snake_case_def getitem_def)
qed

lemma to_snake_case_Nil: "to_snake_case U [] = Some []"
  by (simp add: to_snake_case_def)

lemma to_snake_case_total: "\<exists>r. to_snake_case U s = Some r"
  by (cases s) (simp_all add: to_snake_case_Nil to_snake_case_pieces)

lemma snake_pieces_scan:
  assumes reg: "lower_regular U"
  shows "result \<noteq> [] \<Longrightarrow>
         (last result = [95]) = (concat result \<noteq> [] \<and> last (concat result) = 95) \<Longrightarrow>
         concat (snake_pieces U result prev rest) = spec_scan U (concat result) prev rest"
proof (induction rest arbitrary: prev result)
  case Nil
  then show ?case by simp
next
  case (Cons cur rest)
  let ?ins = "isupper U cur \<and>
      ((isalnum U prev \<and> \<not> isupper U prev) \<or> (rest \<noteq> [] \<and> islower U (hd rest))) \<and>
      last result \<noteq> [95]"
  let ?r1 = "(if ?ins then result @ [[95]] else result) @ [lower U cur]"
  have ne: "lower U cur \<noteq> []" and us: "last (lower U cur) = 95 \<longrightarrow> lower U cur = [95]"
    using reg by (simp_all add: lower_regular_def)
  have ins: "?ins = spec_underscore_before U (concat result) prev cur rest"
    using Cons.prems(2) by (auto simp: spec_underscore_before_def)
  have cat: "concat ?r1 =
      concat result @ (if spec_underscore_before U (concat result) prev cur rest then [95] else [])
        @ lower U cur"
    unfolding ins [symmetric] by simp
  have inv: "(last ?r1 = [95]) = (concat ?r1 \<noteq> [] \<and> last (concat ?r1) = 95)"
    using ne us by auto
  have "?r1 \<noteq> []" by simp
  from Cons.IH [OF this inv] show ?case
    using cat by simp
qed

lemma to_snake_case_spec:
  assumes "lower_regular U"
  shows "to_snake_case U s = Some (spec_to_snake_case U s)"
proof (cases s)
  case Nil
  then show ?thesis by (simp add: to_snake_case_Nil)
next
  case (Cons c cs)
  have inv: "(last [lower U c] = [95]) = (concat [lower U c] \<noteq> [] \<and> last (concat [lower U c]) = 95)"
    using assms by (auto simp: lower_regular_def)
  from snake_pieces_scan [OF assms _ inv, of c cs]
  show ?thesis
    using Cons by (simp add: to_snake_case_pieces)
qed

lemma ascii_tablesD:
  assumes "ascii_tables U" and "c < 128"
  shows "isupper U c = ascii_upper c" and "islower U c = ascii_lower c"
    and "isalnum U c = (ascii_digit c \<or> ascii_upper c \<or> ascii_lower c)"
    and "lower U c = [if ascii_upper c then c + 32 else c]"
  using assms by (simp_all add: ascii_tables_def)

lemmas ascii_class_defs = ascii_upper_def ascii_lower_def ascii_digit_def

lemma python_ucd_fragment: "python_ucd ucd_fragment"
  by (simp add: python_ucd_def ascii_tables_def lower_regular_def ucd_fragment_def
      ascii_class_defs)

lemma to_snake_case_ascii_examples:
  assumes "ascii_tables U"
  shows "to_snake_case U (py ''camelCase'') = Some (py ''camel_case'')"
    and "to_snake_case U (py ''PascalCase'') = Some (py ''pascal_case'')"
    and "to_snake_case U (py ''ABC'') = Some (py ''abc'')"
    and "to_snake_case U (py ''XMLHttpRequest'') = Some (py ''xml_http_request'')"
    and "to_snake_case U (py '''') = Some (py '''')"
  using assms
  by (simp_all add: py_def to_snake_case_Nil to_snake_case_pieces ascii_tablesD ascii_class_defs)

text \<open>
  Claim C1. For a character database that agrees with Python's on the ASCII characters
  and in which no lower-case form is empty or ends with a foreign underscore,
  \<^verbatim>\<open>to_snake_case(s)\<close> returns, for every string \<open>s\<close>, the string of the scan:
  the first character lower-cased, then every further character lower-cased, with an
  underscore before it exactly when it is upper case and either the previous character is
  alphanumeric and not upper case or the next character exists and is lower case, but
  never after an underscore that ends the output; the empty string is returned as it is.
  The five examples of the specification evaluate as it says.
\<close>

theorem to_snake_case_scan:
  assumes "python_ucd U"
  shows "to_snake_case U s = Some (spec_to_snake_case U s) \<and>
         to_snake_case U (py ''camelCase'') = Some (py ''camel_case'') \<and>
         to_snake_case U (py ''PascalCase'') = Some (py ''pascal_case'') \<and>
         to_snake_case U (py ''ABC'') = Some (py ''abc'') \<and>
         to_snake_case U (py ''XMLHttpRequest'') = Some (py ''xml_http_request'') \<and>
         to_snake_case U (py '''') = Some (py '''')"
proof -
  have reg: "lower_regular U" and asc: "ascii_tables U"
    using assms by (simp_all add: python_ucd_def)
  show ?thesis
    using to_snake_case_spec [OF reg, of s] to_snake_case_ascii_examples [OF asc]
    by simp
qed

theorem to_snake_case_scan_witness:
  "python_ucd ucd_fragment \<and>
   to_snake_case ucd_fragment (py ''ThisIsATest'') = Some (py ''this_is_a_test'') \<and>
   to_snake_case ucd_fragment (py ''a_Bc'') = Some (py ''a_bc'')"
proof -
  have 1: "spec_to_snake_case ucd_fragment (py ''ThisIsATest'') = py ''this_is_a_test''"
    by (simp add: py_def spec_underscore_before_def ucd_fragment_def ascii_class_defs)
  have 2: "spec_to_snake_case ucd_fragment (py ''a_Bc'') = py ''a_bc''"
    by (simp add: py_def spec_underscore_before_def ucd_fragment_def ascii_class_defs)
  show ?thesis
    using to_snake_case_scan [OF python_ucd_fragment, of "py ''ThisIsATest''"]
      to_snake_case_scan [OF python_ucd_fragment, of "py ''a_Bc''"]
    by (simp add: python_ucd_fragment 1 2)
qed


lemma ascii_lower_stable:
  assumes "ascii_tables U" and "c < 128"
  shows "lower_stable U c"
proof -
  have "(if ascii_upper c then c + 32 else c) < 128"
    using assms(2) by (simp add: ascii_upper_def)
  then show ?thesis
    using assms
    by (simp add: lower_stable_def plain_def ascii_tablesD ascii_class_defs)
qed

lemma snake_pieces_plain:
  assumes us: "plain U 95"
  shows "list_all (plain U) (concat result) \<Longrightarrow> list_all (lower_stable U) rest \<Longrightarrow>
         list_all (plain U) (concat (snake_pieces U result prev rest))"
proof (induction rest arbitrary: result prev)
  case Nil
  then show ?case by simp
next
  case (Cons cur rest)
  show ?case
    using Cons.prems us
    by (auto intro!: Cons.IH simp: lower_stable_def)
qed

lemma snake_pieces_of_plain:
  "list_all (plain U) rest \<Longrightarrow>
   snake_pieces U result prev rest = result @ map (\<lambda>d. [d]) rest"
  by (induction rest arbitrary: result prev) (simp_all add: plain_def)

lemma to_snake_case_of_plain:
  assumes "list_all (plain U) r"
  shows "to_snake_case U r = Some r"
proof (cases r)
  case Nil
  then show ?thesis by (simp add: to_snake_case_Nil)
next
  case (Cons c cs)
  then have "list_all (plain U) cs" and "lower U c = [c]"
    using assms by (simp_all add: plain_def)
  then show ?thesis
    using Cons by (simp add: to_snake_case_pieces snake_pieces_of_plain)
qed

lemma to_snake_case_stable_output:
  assumes "ascii_tables U" and "list_all (lower_stable U) s"
  shows "\<exists>r. to_snake_case U s = Some r \<and> list_all (plain U) r"
proof (cases s)
  case Nil
  then show ?thesis by (simp add: to_snake_case_Nil)
next
  case (Cons c cs)
  have us: "plain U 95"
    using assms(1) by (simp add: plain_def ascii_tablesD ascii_class_defs)
  have "list_all (plain U) (concat [lower U c])" and "list_all (lower_stable U) cs"
    using assms(2) Cons by (simp_all add: lower_stable_def)
  from snake_pieces_plain [OF us this]
  have "list_all (plain U) (concat (snake_pieces U [lower U c] c cs))" .
  then show ?thesis
    using Cons by (simp add: to_snake_case_pieces)
qed

text \<open>
  Claim C10, as amended. For every string in which each character is an ASCII character
  or has a lower-case form that holds no upper-case character and that a second
  lower-casing leaves as it is, applying \<^verbatim>\<open>to_snake_case\<close> twice gives what applying it
  once gives, and the output holds no upper-case character.
\<close>

theorem to_snake_case_idempotent_stable:
  assumes "ascii_tables U" and "list_all (\<lambda>c. c < 128 \<or> lower_stable U c) s"
  shows "Option.bind (to_snake_case U s) (to_snake_case U) = to_snake_case U s \<and>
         (\<exists>r. to_snake_case U s = Some r \<and> list_all (\<lambda>d. \<not> isupper U d) r)"
proof -
  have "list_all (lower_stable U) s"
    using assms by (auto simp: list_all_iff ascii_lower_stable)
  with assms(1) obtain r where r: "to_snake_case U s = Some r" "list_all (plain U) r"
    using to_snake_case_stable_output by blast
  have "to_snake_case U r = Some r"
    using r(2) by (rule to_snake_case_of_plain)
  moreover have "list_all (\<lambda>d. \<not> isupper U d) r"
    using r(2) by (simp add: list_all_iff plain_def)
  ultimately show ?thesis
    using r(1) by simp
qed

lemma ascii_tables_fragment: "ascii_tables ucd_fragment"
  using python_ucd_fragment by (simp add: python_ucd_def)

theorem to_snake_case_idempotent_stable_witness:
  "ascii_tables ucd_fragment \<and>
   list_all (\<lambda>c. c < 128 \<or> lower_stable ucd_fragment c) (py ''XMLHttpRequest'') \<and>
   to_snake_case ucd_fragment (py ''XMLHttpRequest'') = Some (py ''xml_http_request'') \<and>
   Option.bind (to_snake_case ucd_fragment (py ''XMLHttpRequest'')) (to_snake_case ucd_fragment)
     = Some (py ''xml_http_request'')"
proof -
  have h: "list_all (\<lambda>c. c < 128 \<or> lower_stable ucd_fragment c) (py ''XMLHttpRequest'')"
    by (simp add: py_def)
  have v: "to_snake_case ucd_fragment (py ''XMLHttpRequest'') = Some (py ''xml_http_request'')"
    using to_snake_case_ascii_examples(4) [OF ascii_tables_fragment] .
  show ?thesis
    using to_snake_case_idempotent_stable [OF ascii_tables_fragment h] h v
    by (simp add: ascii_tables_fragment)
qed

text \<open>
  The claim as stated fails on a string with an upper-case character that has no
  lower-case form. In Python, \<^verbatim>\<open>to_snake_case('A\u03d2') == 'a\u03d2'\<close>: the second
  character is upper case, but its neighbour \<^verbatim>\<open>A\<close> is upper case too and nothing
  follows, so no underscore is inserted, and lower-casing leaves U+03D2 as it is. In
  \<^verbatim>\<open>'a\u03d2'\<close> the neighbour is the lower-case \<^verbatim>\<open>a\<close>, so the second application inserts
  an underscore: \<^verbatim>\<open>to_snake_case('a\u03d2') == 'a_\u03d2'\<close>.
\<close>

theorem to_snake_case_idempotent_counterexample:
  "to_snake_case ucd_fragment [65, 0x3D2] = Some [97, 0x3D2] \<and>
   to_snake_case ucd_fragment [97, 0x3D2] = Some [97, 95, 0x3D2] \<and>
   Option.bind (to_snake_case ucd_fragment [65, 0x3D2]) (to_snake_case ucd_fragment)
     \<noteq> to_snake_case ucd_fragment [65, 0x3D2]"
  by (simp add: to_snake_case_pieces ucd_fragment_def ascii_class_defs)

section \<open>Properties of the dictionary key converter\<close>

lemma convert_total:
  "\<exists>r. convert_dict_keys_to_snake_case U data = Some r"
  "\<exists>r. convert_items U items d = Some r"
proof (induction U data and U items d rule: convert_dict_keys_to_snake_case_convert_items.induct)
  case (9 U key val rest d)
  obtain k where k: "to_snake_case U key = Some k"
    using to_snake_case_total by blast
  obtain v where v: "convert_dict_keys_to_snake_case U val = Some v"
    using "9.IH"(1) [OF k] by blast
  show ?case
    using "9.IH"(2) [OF k v] k v by simp
qed auto

lemma convert_items_fold:
  "convert_items U items d =
     Some (foldl (\<lambda>d (k, v). AList.update k v d) d
             (map (\<lambda>(key, val). (the (to_snake_case U key),
                                   the (convert_dict_keys_to_snake_case U val))) items))"
proof (induction items arbitrary: d)
  case Nil
  then show ?case by simp
next
  case (Cons item items)
  obtain key val where item: "item = (key, val)" by (cases item)
  obtain k where k: "to_snake_case U key = Some k"
    using to_snake_case_total by blast
  obtain v where v: "convert_dict_keys_to_snake_case U val = Some v"
    using convert_total(1) by blast
  show ?case
    using Cons.IH [of "AList.update k v d"] by (simp add: item k v)
qed

lemma convert_non_dict: "\<not> is_dict data \<Longrightarrow> convert_dict_keys_to_snake_case U data = Some data"
  by (cases data) simp_all

lemma size_dict_item: "(key, val) \<in> set items \<Longrightarrow> size val < size (PDict items)"
  by (induction items) auto

text \<open>
  Claim C3. \<^verbatim>\<open>convert_dict_keys_to_snake_case\<close> returns a value that is not a dictionary
  as it is, a list included, so that a dictionary inside a list is not transformed. For a
  dictionary it returns the dictionary built, item by item, from the keys passed through
  \<^verbatim>\<open>to_snake_case\<close> and the values passed through the function itself. The two
  examples of the specification evaluate as it says.
\<close>

theorem convert_dict_keys_to_snake_case_rule:
  assumes "ascii_tables U"
  shows "(\<not> is_dict data \<longrightarrow> convert_dict_keys_to_snake_case U data = Some data) \<and>
         convert_dict_keys_to_snake_case U (PDict items) =
           Some (PDict (dict_of_items
             (map (\<lambda>(key, val). (the (to_snake_case U key),
                                   the (convert_dict_keys_to_snake_case U val))) items))) \<and>
         convert_dict_keys_to_snake_case U
             (PDict [(py ''firstName'', PStr (py ''John'')),
                     (py ''lastName'', PDict [(py ''innerValue'', PInt 1)])]) =
           Some (PDict [(py ''first_name'', PStr (py ''John'')),
                        (py ''last_name'', PDict [(py ''inner_value'', PInt 1)])]) \<and>
         convert_dict_keys_to_snake_case U (PList [PInt 1, PInt 2]) = Some (PList [PInt 1, PInt 2])"
proof -
  have 1: "to_snake_case U (py ''firstName'') = Some (py ''first_name'')"
    and 2: "to_snake_case U (py ''lastName'') = Some (py ''last_name'')"
    and 3: "to_snake_case U (py ''innerValue'') = Some (py ''inner_value'')"
    using assms
    by (simp_all add: py_def to_snake_case_pieces ascii_tablesD ascii_class_defs)
  have neq: "py ''last_name'' \<noteq> py ''first_name''" "py ''first_name'' \<noteq> py ''last_name''"
    by (simp_all add: py_def)
  show ?thesis
    by (simp add: convert_non_dict convert_items_fold dict_of_items_def 1 2 3 neq)
qed

theorem convert_dict_keys_to_snake_case_rule_witness:
  "ascii_tables ucd_fragment \<and>
   convert_dict_keys_to_snake_case ucd_fragment (PList [PDict [(py ''aB'', PNone)]])
     = Some (PList [PDict [(py ''aB'', PNone)]]) \<and>
   convert_dict_keys_to_snake_case ucd_fragment (PDict [(py ''aB'', PObj 0), (py ''a_b'', PNone)])
     = Some (PDict [(py ''a_b'', PNone)])"
proof -
  have k: "to_snake_case ucd_fragment (py ''aB'') = Some (py ''a_b'')"
    "to_snake_case ucd_fragment (py ''a_b'') = Some (py ''a_b'')"
    by (simp_all add: py_def to_snake_case_pieces ucd_fragment_def ascii_class_defs)
  show ?thesis
    using convert_dict_keys_to_snake_case_rule [OF ascii_tables_fragment,
        of "PList [PDict [(py ''aB'', PNone)]]" "[(py ''aB'', PObj 0), (py ''a_b'', PNone)]"]
    by (simp add: ascii_tables_fragment k dict_of_items_def)
qed

section \<open>Totality and the stack\<close>

lemma to_snake_case_frames_eq:
  "to_snake_case_frames I U n s =
     (if snake_need I s \<le> n then Inr (the (to_snake_case U s)) else Inl RecursionError)"
proof -
  obtain r where "to_snake_case U s = Some r"
    using to_snake_case_total by blast
  then show ?thesis
    by (auto simp: to_snake_case_frames_def snake_need_def to_snake_case_Nil)
qed

lemma frames_needed_pos: "0 < frames_needed I data"
  by (cases data) simp_all

lemma convert_frames_eq:
  "convert_dict_keys_to_snake_case_frames I U n data =
     (if frames_needed I data \<le> n then Inr (the (convert_dict_keys_to_snake_case U data))
      else Inl RecursionError)"
  "convert_items_frames I U n items d =
     (if items_need I items \<le> n then Inr (the (convert_items U items d))
      else Inl RecursionError)"
proof (induction I U n data and I U n items d
    rule: convert_dict_keys_to_snake_case_frames_convert_items_frames.induct)
  case (2 I U m items)
  obtain r where r: "convert_items U items [] = Some r"
    using convert_total(2) by blast
  show ?case
  proof (cases "m < method_frames I \<or> m < comprehension_frames I")
    case True
    then show ?thesis by auto
  next
    case False
    then have "convert_items_frames I U (m - comprehension_frames I) items [] =
        (if items_need I items \<le> m - comprehension_frames I then Inr r else Inl RecursionError)"
      using "2.IH" r by simp
    then show ?thesis
      using False r by auto
  qed
next
  case (10 I U frames key val rest d)
  obtain k where k: "to_snake_case U key = Some k"
    using to_snake_case_total by blast
  obtain v where v: "convert_dict_keys_to_snake_case U val = Some v"
    using convert_total(1) by blast
  show ?case
  proof (cases "snake_need I key \<le> frames")
    case False
    then show ?thesis
      by (simp add: to_snake_case_frames_eq)
  next
    case sn: True
    then have ks: "to_snake_case_frames I U frames key = Inr k"
      by (simp add: to_snake_case_frames_eq k)
    show ?thesis
    proof (cases "frames_needed I val \<le> frames")
      case False
      then show ?thesis
        using "10.IH"(1) [OF ks] by (simp add: ks)
    next
      case True
      then have vs: "convert_dict_keys_to_snake_case_frames I U frames val = Inr v"
        using "10.IH"(1) [OF ks] v by simp
      show ?thesis
        using "10.IH"(2) [OF ks vs] sn True by (simp add: ks vs k v)
    qed
  qed
qed (simp_all add: frames_needed_pos)

lemma depth_le_need:
  "dict_depth data \<le> frames_needed I data"
  "items_depth items \<le> items_need I items"
  by (induction I data and I items rule: frames_needed_items_need.induct) auto

lemma need_le_depth:
  "frames_needed I data \<le>
     (1 + comprehension_frames I) * dict_depth data + 1 + method_frames I"
  "items_need I items \<le> (1 + comprehension_frames I) * items_depth items + 1 + method_frames I"
proof (induction I data and I items rule: frames_needed_items_need.induct)
  case (9 I key val rest)
  have "snake_need I key \<le> 1 + method_frames I"
    by (simp add: snake_need_def)
  moreover have "(1 + comprehension_frames I) * dict_depth val
      \<le> (1 + comprehension_frames I) * max (dict_depth val) (items_depth rest)"
    and "(1 + comprehension_frames I) * items_depth rest
      \<le> (1 + comprehension_frames I) * max (dict_depth val) (items_depth rest)"
    by (intro mult_le_mono2, simp)+
  ultimately show ?case
    using "9.IH" by simp
qed simp_all

lemma need_nested_311: "frames_needed cpython311 (nested (Suc k)) = 2 * k + 4"
  by (induction k) (simp_all add: cpython311_def snake_need_def py_def)

lemma dict_depth_nested: "dict_depth (nested k) = k"
  by (induction k) simp_all

text \<open>
  Claim C9, as amended. \<^verbatim>\<open>to_snake_case\<close> returns a string for every string: no
  subscript of its loop is out of range, and it needs two frames at most, whatever the
  string; the empty string comes back as it is. \<^verbatim>\<open>convert_operator\<close> needs two frames at
  most and answers every operator string with one of twelve SQL operators.
  \<^verbatim>\<open>convert_dict_keys_to_snake_case\<close> goes from a dictionary to the values of its items,
  each of which is smaller than the dictionary, and has a result for every value; run on
  a stack, it returns that result when the frames left cover what the call needs, and
  raises \<^verbatim>\<open>RecursionError\<close> when they do not. They do when there are as many frames as
  the nesting depth takes levels (one frame a level, two with a frame for the
  comprehension) and two more; they do not when there are fewer frames than the depth.
\<close>

theorem helpers_return_within_stack:
  "(\<exists>r. to_snake_case U s = Some r \<and>
        (1 + method_frames I \<le> n \<longrightarrow> to_snake_case_frames I U n s = Inr r)) \<and>
   (1 \<le> n \<longrightarrow> to_snake_case_frames I U n [] = Inr []) \<and>
   (1 + method_frames I \<le> n \<longrightarrow>
      convert_operator_frames I n operator case_insensitive =
        Inr (convert_operator operator case_insensitive)) \<and>
   convert_operator operator case_insensitive \<in>
     py ` {''ILIKE'', ''LIKE'', ''NOT ILIKE'', ''NOT LIKE'', ''IS NULL'', ''IS NOT NULL'',
           ''='', ''!='', ''<'', ''>'', ''<='', ''>=''} \<and>
   (\<forall>(key, val) \<in> set items. size val < size (PDict items)) \<and>
   (\<exists>r. convert_dict_keys_to_snake_case U data = Some r \<and>
        convert_dict_keys_to_snake_case_frames I U n data =
          (if frames_needed I data \<le> n then Inr r else Inl RecursionError)) \<and>
   ((1 + comprehension_frames I) * dict_depth data + 1 + method_frames I \<le> n \<longrightarrow>
      frames_needed I data \<le> n) \<and>
   (n < dict_depth data \<longrightarrow>
      convert_dict_keys_to_snake_case_frames I U n data = Inl RecursionError)"
proof -
  obtain r where r: "to_snake_case U s = Some r"
    using to_snake_case_total by blast
  have "snake_need I s \<le> 1 + method_frames I"
    by (simp add: snake_need_def)
  then have a: "\<exists>r. to_snake_case U s = Some r \<and>
        (1 + method_frames I \<le> n \<longrightarrow> to_snake_case_frames I U n s = Inr r)"
    using r by (simp add: to_snake_case_frames_eq)
  have b: "1 \<le> n \<longrightarrow> to_snake_case_frames I U n [] = Inr []"
    by (simp add: to_snake_case_frames_def)
  have c: "1 + method_frames I \<le> n \<longrightarrow>
      convert_operator_frames I n operator case_insensitive =
        Inr (convert_operator operator case_insensitive)"
    by (auto simp: convert_operator_frames_def)
  have d: "convert_operator operator case_insensitive \<in>
     py ` {''ILIKE'', ''LIKE'', ''NOT ILIKE'', ''NOT LIKE'', ''IS NULL'', ''IS NOT NULL'',
           ''='', ''!='', ''<'', ''>'', ''<='', ''>=''}"
    unfolding convert_operator_def Let_def operator_map_eval
    by (simp add: dict_get_def)
  have e: "\<forall>(key, val) \<in> set items. size val < size (PDict items)"
    using size_dict_item by auto
  obtain v where v: "convert_dict_keys_to_snake_case U data = Some v"
    using convert_total(1) by blast
  then have f: "\<exists>r. convert_dict_keys_to_snake_case U data = Some r \<and>
        convert_dict_keys_to_snake_case_frames I U n data =
          (if frames_needed I data \<le> n then Inr r else Inl RecursionError)"
    by (simp add: convert_frames_eq(1))
  have g: "(1 + comprehension_frames I) * dict_depth data + 1 + method_frames I \<le> n \<longrightarrow>
      frames_needed I data \<le> n"
    using need_le_depth(1) [of I data] by simp
  have h: "n < dict_depth data \<longrightarrow>
      convert_dict_keys_to_snake_case_frames I U n data = Inl RecursionError"
    using depth_le_need(1) [of data I] by (simp add: convert_frames_eq(1))
  show ?thesis
    using a b c d e f g h by blast
qed

theorem helpers_return_within_stack_witness:
  "to_snake_case_frames cpython311 ucd_fragment 2 (py ''aB'') = Inr (py ''a_b'') \<and>
   convert_operator_frames cpython311 2 (py ''unknown_op'') True = Inr (py ''ILIKE'') \<and>
   size (PDict [(py ''cD'', PList [])]) < size (PDict [(py ''aB'', PDict [(py ''cD'', PList [])])]) \<and>
   frames_needed cpython311 (PDict [(py ''aB'', PDict [(py ''cD'', PList [])])]) = 6 \<and>
   convert_dict_keys_to_snake_case_frames cpython311 ucd_fragment 6
       (PDict [(py ''aB'', PDict [(py ''cD'', PList [])])])
     = Inr (PDict [(py ''a_b'', PDict [(py ''c_d'', PList [])])]) \<and>
   convert_dict_keys_to_snake_case_frames cpython311 ucd_fragment 5
       (PDict [(py ''aB'', PDict [(py ''cD'', PList [])])])
     = Inl RecursionError"
proof -
  let ?d = "PDict [(py ''aB'', PDict [(py ''cD'', PList [])])]"
  have k: "to_snake_case ucd_fragment (py ''aB'') = Some (py ''a_b'')"
    "to_snake_case ucd_fragment (py ''cD'') = Some (py ''c_d'')"
    by (simp_all add: py_def to_snake_case_pieces ucd_fragment_def ascii_class_defs)
  have c: "convert_dict_keys_to_snake_case ucd_fragment ?d
      = Some (PDict [(py ''a_b'', PDict [(py ''c_d'', PList [])])])"
    by (simp add: k)
  have o: "convert_operator (py ''unknown_op'') True = py ''ILIKE''"
    unfolding convert_operator_def Let_def operator_map_eval
    by (simp add: dict_get_def py_def)
  have n: "frames_needed cpython311 ?d = 6"
    by (simp add: cpython311_def snake_need_def py_def)
  have m: "method_frames cpython311 = 1"
    by (simp add: cpython311_def)
  have 1: "to_snake_case_frames cpython311 ucd_fragment 2 (py ''aB'') = Inr (py ''a_b'')"
    using helpers_return_within_stack [of ucd_fragment "py ''aB''" cpython311 2] k(1) m
    by auto
  have 2: "convert_operator_frames cpython311 2 (py ''unknown_op'') True = Inr (py ''ILIKE'')"
    using helpers_return_within_stack [of ucd_fragment _ cpython311 2 "py ''unknown_op''" True] o m
    by simp
  have 3: "size (PDict [(py ''cD'', PList [])]) < size ?d"
    using helpers_return_within_stack [of ucd_fragment _ cpython311 _ _ _
        "[(py ''aB'', PDict [(py ''cD'', PList [])])]"]
    by auto
  have 4: "convert_dict_keys_to_snake_case_frames cpython311 ucd_fragment 6 ?d
      = Inr (PDict [(py ''a_b'', PDict [(py ''c_d'', PList [])])])"
    using helpers_return_within_stack [of ucd_fragment _ cpython311 6 _ _ _ ?d] c n
    by auto
  have 5: "convert_dict_keys_to_snake_case_frames cpython311 ucd_fragment 5 ?d = Inl RecursionError"
    using helpers_return_within_stack [of ucd_fragment _ cpython311 5 _ _ _ ?d] c n
    by auto
  show ?thesis
    using 1 2 3 4 5 n by blast
qed

text \<open>
  The claim as stated fails on a dictionary nested deeper than the stack admits: the
  function has no guard on the depth. With the 1000 frames of the default limit, a
  dictionary nested 1001 deep raises \<^verbatim>\<open>RecursionError\<close> on every interpreter, and up to
  Python 3.11, where a level takes two frames, one nested 500 deep does.
\<close>

theorem helpers_total_counterexample:
  "convert_dict_keys_to_snake_case_frames cpython312 ucd_fragment 1000 (nested 1001)
     = Inl RecursionError \<and>
   convert_dict_keys_to_snake_case_frames cpython311 ucd_fragment 1000 (nested 500)
     = Inl RecursionError"
proof -
  have "frames_needed cpython312 (nested 1001) > 1000"
    using depth_le_need(1) [of "nested 1001" cpython312] by (simp add: dict_depth_nested)
  moreover have "frames_needed cpython311 (nested 500) > 1000"
    using need_nested_311 [of 499] by simp
  ultimately show ?thesis
    by (simp add: convert_frames_eq(1))
qed

section \<open>Properties of the JSON helpers\<close>

lemma except_loads:
  "except [TypeError, ValueError, JSONDecodeError] e \<longleftrightarrow> e \<in> {TypeError, ValueError, JSONDecodeError}"
  by (cases e) (simp_all add: except_def)

lemma except_dumps:
  "except [TypeError, ValueError, OverflowError] e \<longleftrightarrow>
     e \<in> {TypeError, ValueError, JSONDecodeError, OverflowError}"
  by (cases e) (simp_all add: except_def)

text \<open>
  Claim C4. \<^verbatim>\<open>safe_json_loads\<close> returns the default when the input is \<^verbatim>\<open>None\<close>;
  it returns a dictionary or a list as it is, whatever the parser would do; it returns
  the default when the input is of any other type than a string; and for a string whose
  parse raises \<^verbatim>\<open>TypeError\<close>, \<^verbatim>\<open>ValueError\<close> or \<^verbatim>\<open>JSONDecodeError\<close> it returns the
  default. Otherwise, without the second decoding, it returns what the parser returns.
\<close>

theorem safe_json_loads_cases:
  "safe_json_loads loads PNone dflt dd = Inr dflt \<and>
   (is_dict data \<or> is_list data \<longrightarrow> safe_json_loads loads data dflt dd = Inr data) \<and>
   (data \<noteq> PNone \<and> \<not> is_dict data \<and> \<not> is_list data \<and> \<not> is_str data \<longrightarrow>
      safe_json_loads loads data dflt dd = Inr dflt) \<and>
   (loads s = Inl e \<and> except [TypeError, ValueError, JSONDecodeError] e \<longrightarrow>
      safe_json_loads loads (PStr s) dflt dd = Inr dflt) \<and>
   (loads s = Inr result \<and> \<not> dd \<longrightarrow> safe_json_loads loads (PStr s) dflt dd = Inr result)"
proof -
  have a: "data \<noteq> PNone \<and> \<not> is_dict data \<and> \<not> is_list data \<and> \<not> is_str data \<longrightarrow>
      safe_json_loads loads data dflt dd = Inr dflt"
    by (cases data) (simp_all add: safe_json_loads_def loads_body_def)
  have b: "loads s = Inr result \<and> \<not> dd \<longrightarrow> safe_json_loads loads (PStr s) dflt dd = Inr result"
    by (simp add: safe_json_loads_def loads_body_def split: pyval.split)
  have c: "is_dict data \<or> is_list data \<longrightarrow> safe_json_loads loads data dflt dd = Inr data"
    by (cases data) (simp_all add: safe_json_loads_def)
  show ?thesis
    using a b c by (simp add: safe_json_loads_def loads_body_def)
qed

theorem safe_json_loads_cases_witness:
  \<open>safe_json_loads loads_fragment (PDict [(py ''a'', PInt 1)]) PNone False
     = Inr (PDict [(py ''a'', PInt 1)]) \<and>
   safe_json_loads loads_fragment (PObj 0) (PInt 7) False = Inr (PInt 7) \<and>
   safe_json_loads loads_fragment (PStr (py ''not json'')) (PDict []) False = Inr (PDict []) \<and>
   safe_json_loads loads_fragment (PStr (py ''{"a":1}'')) PNone False
     = Inr (PDict [(py ''a'', PInt 1)])\<close>
proof -
  have 1: \<open>loads_fragment (py ''not json'') = Inl JSONDecodeError\<close>
    by (simp add: loads_fragment_def double_encoded_def py_def)
  have 2: \<open>loads_fragment (py ''{"a":1}'') = Inr (PDict [(py ''a'', PInt 1)])\<close>
    by (simp add: loads_fragment_def double_encoded_def py_def)
  show ?thesis
    using safe_json_loads_cases [of loads_fragment PNone False "PDict [(py ''a'', PInt 1)]"]
      safe_json_loads_cases [of loads_fragment "PInt 7" False "PObj 0"]
      safe_json_loads_cases [of loads_fragment "PDict []" False _ "py ''not json''" JSONDecodeError]
      safe_json_loads_cases [of loads_fragment PNone False _ \<open>py ''{"a":1}''\<close> _
         "PDict [(py ''a'', PInt 1)]"]
    by (simp add: 1 2 except_def)
qed

text \<open>
  Claim C5. With \<^verbatim>\<open>attempt_double_decode\<close> set and a first parse that returns
  \<open>result\<close>: when \<open>result\<close> is a string that starts with an opening brace or bracket,
  the function parses it again and returns the second result, or \<open>result\<close> itself (not
  the default, and no exception) when the second parse raises \<^verbatim>\<open>TypeError\<close>,
  \<^verbatim>\<open>ValueError\<close> or \<^verbatim>\<open>JSONDecodeError\<close>; when \<open>result\<close> is another string, or not a
  string, it returns \<open>result\<close>. A parser that reads the double-encoded text and the
  text inside it as JSON does makes the function return the dictionary with the one item
  \<^verbatim>\<open>a: 1\<close>.
\<close>

theorem safe_json_loads_double_decode:
  \<open>(loads s = Inr (PStr r) \<and> (startswith r (py ''{'') \<or> startswith r (py ''['')) \<and>
      loads r = Inr second \<longrightarrow>
      safe_json_loads loads (PStr s) dflt True = Inr second) \<and>
   (loads s = Inr (PStr r) \<and> (startswith r (py ''{'') \<or> startswith r (py ''['')) \<and>
      loads r = Inl e \<and> except [TypeError, ValueError, JSONDecodeError] e \<longrightarrow>
      safe_json_loads loads (PStr s) dflt True = Inr (PStr r)) \<and>
   (loads s = Inr (PStr r) \<and> \<not> startswith r (py ''{'') \<and> \<not> startswith r (py ''['') \<longrightarrow>
      safe_json_loads loads (PStr s) dflt True = Inr (PStr r)) \<and>
   (loads s = Inr result \<and> \<not> is_str result \<longrightarrow>
      safe_json_loads loads (PStr s) dflt True = Inr result) \<and>
   (loads double_encoded = Inr (PStr (py ''{"a":1}'')) \<and>
      loads (py ''{"a":1}'') = Inr (PDict [(py ''a'', PInt 1)]) \<longrightarrow>
      safe_json_loads loads (PStr double_encoded) dflt True = Inr (PDict [(py ''a'', PInt 1)]))\<close>
proof -
  have sw: \<open>startswith (py ''{"a":1}'') (py ''{'')\<close>
    by (simp add: startswith_def py_def)
  have a: "loads s = Inr result \<and> \<not> is_str result \<longrightarrow>
      safe_json_loads loads (PStr s) dflt True = Inr result"
    by (cases result) (simp_all add: safe_json_loads_def loads_body_def)
  show ?thesis
    using a sw by (auto simp: safe_json_loads_def loads_body_def second_decode_def)
qed

theorem safe_json_loads_double_decode_witness:
  \<open>safe_json_loads loads_fragment (PStr double_encoded) PNone True = Inr (PDict [(py ''a'', PInt 1)]) \<and>
   safe_json_loads loads_fragment (PStr (py ''"{a"'')) PNone True = Inr (PStr (py ''{a'')) \<and>
   safe_json_loads loads_fragment (PStr (py ''"a"'')) PNone True = Inr (PStr (py ''a'')) \<and>
   safe_json_loads loads_fragment (PStr (py ''[1, 2]'')) PNone True = Inr (PList [PInt 1, PInt 2])\<close>
proof -
  have l: \<open>loads_fragment double_encoded = Inr (PStr (py ''{"a":1}''))\<close>
    \<open>loads_fragment (py ''{"a":1}'') = Inr (PDict [(py ''a'', PInt 1)])\<close>
    \<open>loads_fragment (py ''"{a"'') = Inr (PStr (py ''{a''))\<close>
    \<open>loads_fragment (py ''{a'') = Inl JSONDecodeError\<close>
    \<open>loads_fragment (py ''"a"'') = Inr (PStr (py ''a''))\<close>
    \<open>loads_fragment (py ''[1, 2]'') = Inr (PList [PInt 1, PInt 2])\<close>
    by (simp_all add: loads_fragment_def double_encoded_def py_def)
  have sw: \<open>startswith (py ''{a'') (py ''{'')\<close>
    \<open>\<not> startswith (py ''a'') (py ''{'')\<close> \<open>\<not> startswith (py ''a'') (py ''['')\<close>
    by (simp_all add: startswith_def py_def)
  show ?thesis
    using safe_json_loads_double_decode [of loads_fragment]
      safe_json_loads_double_decode [of loads_fragment \<open>py ''"{a"''\<close> \<open>py ''{a''\<close> _ _ JSONDecodeError]
      safe_json_loads_double_decode [of loads_fragment \<open>py ''"a"''\<close> \<open>py ''a''\<close>]
      safe_json_loads_double_decode [of loads_fragment \<open>py ''[1, 2]''\<close> _ _ _ _ "PList [PInt 1, PInt 2]"]
    by (simp add: l sw except_def)
qed

text \<open>
  Claim C6. \<^verbatim>\<open>safe_json_dumps\<close> returns the string of \<^verbatim>\<open>json.dumps\<close> when that
  succeeds. When it raises \<^verbatim>\<open>TypeError\<close>, \<^verbatim>\<open>ValueError\<close> or \<^verbatim>\<open>OverflowError\<close>, the
  function returns the default, and the two-character string of an empty JSON object
  when the default is omitted or \<^verbatim>\<open>None\<close>. So the dictionary with the item \<^verbatim>\<open>a: 1\<close>
  gives the JSON text the serializer produces for it, and an object the serializer
  rejects gives the default \<^verbatim>\<open>[]\<close>.
\<close>

theorem safe_json_dumps_cases:
  \<open>(dumps data = Inr s \<longrightarrow> safe_json_dumps dumps data dflt = Inr (PStr s)) \<and>
   (dumps data = Inl e \<and> except [TypeError, ValueError, OverflowError] e \<longrightarrow>
      safe_json_dumps dumps data dflt = Inr (if dflt = PNone then PStr (py ''{}'') else dflt)) \<and>
   (dumps (PDict [(py ''a'', PInt 1)]) = Inr (py ''{"a": 1}'') \<longrightarrow>
      safe_json_dumps dumps (PDict [(py ''a'', PInt 1)]) PNone = Inr (PStr (py ''{"a": 1}''))) \<and>
   (dumps (PObj t) = Inl TypeError \<longrightarrow>
      safe_json_dumps dumps (PObj t) (PStr (py ''[]'')) = Inr (PStr (py ''[]'')))\<close>
  by (simp add: safe_json_dumps_def except_def)

theorem safe_json_dumps_cases_witness:
  \<open>safe_json_dumps dumps_fragment (PDict [(py ''a'', PInt 1)]) PNone = Inr (PStr (py ''{"a": 1}'')) \<and>
   safe_json_dumps dumps_fragment (PObj 0) PNone = Inr (PStr (py ''{}'')) \<and>
   safe_json_dumps dumps_fragment (PObj 0) (PStr (py ''[]'')) = Inr (PStr (py ''[]''))\<close>
proof -
  have d: \<open>dumps_fragment (PDict [(py ''a'', PInt 1)]) = Inr (py ''{"a": 1}'')\<close>
    \<open>dumps_fragment (PObj 0) = Inl TypeError\<close>
    by (simp_all add: dumps_fragment_def)
  show ?thesis
    using safe_json_dumps_cases [of dumps_fragment "PDict [(py ''a'', PInt 1)]" _ PNone]
      safe_json_dumps_cases [of dumps_fragment "PObj 0" _ PNone TypeError]
      safe_json_dumps_cases [of dumps_fragment "PObj 0" _ \<open>PStr (py ''[]'')\<close> TypeError 0]
    by (simp add: d except_def)
qed

section \<open>Properties of the UUID validators\<close>

subsection \<open>Strings\<close>

lemma replace_from_absent:
  "old \<noteq> [] \<Longrightarrow> hd old \<notin> set s \<Longrightarrow> replace_from old new s = s"
proof (induction s)
  case Nil
  then show ?case by simp
next
  case (Cons c cs)
  obtain a as where old: "old = a # as"
    using Cons.prems(1) by (cases old) auto
  have "\<not> startswith (c # cs) old"
    using Cons.prems(2) by (auto simp: startswith_def old)
  then show ?case
    using Cons by simp
qed

lemma replace_from_single: "replace_from [c] [] s = filter (\<lambda>x. x \<noteq> c) s"
  by (induction s) (auto simp: startswith_def)

lemma strip_id:
  assumes "s \<noteq> []" and "hd s \<notin> set chars" and "last s \<notin> set chars"
  shows "strip s chars = s"
proof -
  have 1: "dropWhile (\<lambda>c. c \<in> set chars) s = s"
    using assms(1,2) by (cases s) auto
  have "hd (rev s) \<notin> set chars"
    using assms(1,3) by (simp add: hd_rev)
  then have 2: "dropWhile (\<lambda>c. c \<in> set chars) (rev s) = rev s"
    using assms(1) by (cases "rev s") auto
  show ?thesis
    by (simp add: strip_def 1 2)
qed

subsection \<open>Hexadecimal notation\<close>

lemma hexstr_zero: "hexstr k 0 = replicate k 48"
  by (induction k) (simp_all add: hexchar_def replicate_append_same)

lemma length_hexstr [simp]: "length (hexstr k m) = k"
  by (induction k arbitrary: m) simp_all

lemma zfill_hex_digits:
  "0 < k \<Longrightarrow> m < 16 ^ k \<Longrightarrow> zfill k (hex_digits m) = hexstr k m"
proof (induction m arbitrary: k rule: hex_digits.induct)
  case (1 n)
  obtain j where k: "k = Suc j"
    using "1.prems"(1) by (cases k) auto
  show ?case
  proof (cases "n < 16")
    case True
    then show ?thesis
      by (simp add: k zfill_def hexstr_zero hex_digits.simps [of n])
  next
    case False
    have "0 < j"
      using False "1.prems"(2) k by (cases j) auto
    moreover have "n div 16 < 16 ^ j"
      using "1.prems"(2) k by (simp add: less_mult_imp_div_less mult.commute)
    ultimately have "zfill j (hex_digits (n div 16)) = hexstr j (n div 16)"
      using "1.IH" False by simp
    then show ?thesis
      using False by (simp add: k zfill_def hex_digits.simps [of n])
  qed
qed

lemma hexval_snoc: "hexval (ds @ [d]) = 16 * hexval ds + hexval_char d"
  by (simp add: hexval_def)

lemma hexval_char_hexchar: "d < 16 \<Longrightarrow> hexval_char (hexchar d) = d"
  by (simp add: hexval_char_def hexchar_def ascii_digit_def)

lemma hexchar_hexval_char: "lhex c \<Longrightarrow> hexchar (hexval_char c) = c"
  by (auto simp: hexval_char_def hexchar_def ascii_digit_def lhex_def)

lemma hexval_char_less: "lhex c \<Longrightarrow> hexval_char c < 16"
  by (auto simp: hexval_char_def ascii_digit_def lhex_def)

lemma lhex_hexchar: "d < 16 \<Longrightarrow> lhex (hexchar d)"
  by (auto simp: hexchar_def ascii_digit_def lhex_def)

lemma hexstr_hexval:
  "list_all lhex ds \<Longrightarrow> hexstr (length ds) (hexval ds) = ds"
proof (induction ds rule: rev_induct)
  case Nil
  then show ?case by simp
next
  case (snoc d ds)
  then have "hexval_char d < 16" and "hexchar (hexval_char d) = d" and "list_all lhex ds"
    by (simp_all add: hexval_char_less hexchar_hexval_char)
  then show ?case
    using snoc.IH by (simp add: hexval_snoc)
qed

lemma hexval_hexstr: "m < 16 ^ k \<Longrightarrow> hexval (hexstr k m) = m"
proof (induction k arbitrary: m)
  case 0
  then show ?case by (simp add: hexval_def)
next
  case (Suc k)
  have "m div 16 < 16 ^ k"
    using Suc.prems by (simp add: less_mult_imp_div_less mult.commute)
  from Suc.IH [OF this] show ?case
    by (simp add: hexval_snoc hexval_char_hexchar)
qed

lemma lhex_hexstr: "list_all lhex (hexstr k m)"
  by (induction k arbitrary: m) (simp_all add: lhex_hexchar)

lemma hexval_less: "list_all lhex ds \<Longrightarrow> hexval ds < 16 ^ length ds"
proof (induction ds rule: rev_induct)
  case Nil
  then show ?case by (simp add: hexval_def)
next
  case (snoc d ds)
  then have "hexval_char d < 16" and "hexval ds < 16 ^ length ds"
    by (simp_all add: hexval_char_less)
  then show ?case
    by (simp add: hexval_snoc) 
qed

lemma hexstr_nth:
  "i < k \<Longrightarrow> hexstr k m ! i = hexchar (m div 16 ^ (k - 1 - i) mod 16)"
proof (induction k arbitrary: m)
  case 0
  then show ?case by simp
next
  case (Suc k)
  show ?case
  proof (cases "i < k")
    case True
    then have "Suc (k - 1 - i) = k - i" by simp
    then have "m div 16 div 16 ^ (k - 1 - i) = m div 16 ^ (k - i)"
      by (metis div_mult2_eq power_Suc)
    then show ?thesis
      using True Suc.IH [OF True, of "m div 16"] by (simp add: nth_append)
  next
    case False
    then have "i = k" using Suc.prems by simp
    then show ?thesis by (simp add: nth_append)
  qed
qed

subsection \<open>The version and variant bits\<close>

lemma bit_two: "bit (2::int) j \<longleftrightarrow> j = 1"
  using bit_exp_iff [of 1 j, where ?'a = int] by simp

lemma bit_variant_mask: "bit (push_bit 48 (0xc000::int)) k \<longleftrightarrow> k = 62 \<or> k = 63"
proof -
  have "push_bit 48 (0xc000::int) = push_bit 62 (mask 2)"
    by (simp add: push_bit_eq_mult mask_eq_exp_minus_1)
  then show ?thesis
    by (simp only: bit_push_bit_iff bit_mask_iff) auto
qed

lemma bit_variant_bits: "bit (push_bit 48 (0x8000::int)) k \<longleftrightarrow> k = 63"
proof -
  have "push_bit 48 (0x8000::int) = 2 ^ 63"
    by (simp add: push_bit_eq_mult)
  then show ?thesis
    by (simp only: bit_exp_iff) simp
qed

lemma bit_version_mask: "bit (push_bit 64 (0xf000::int)) k \<longleftrightarrow> 76 \<le> k \<and> k < 80"
proof -
  have "push_bit 64 (0xf000::int) = push_bit 76 (mask 4)"
    by (simp add: push_bit_eq_mult mask_eq_exp_minus_1)
  then show ?thesis
    by (simp only: bit_push_bit_iff bit_mask_iff) auto
qed

lemma bit_set_version:
  "bit (set_version n v) k \<longleftrightarrow>
     (if 76 \<le> k \<and> k < 80 then bit v (k - 76)
      else if k = 63 then True
      else if k = 62 then False
      else bit n k \<or> (76 \<le> k \<and> bit v (k - 76)))"
proof -
  define M1 B M2 :: int
    where "M1 = push_bit 48 0xc000" and "B = push_bit 48 0x8000" and "M2 = push_bit 64 0xf000"
  have b: "bit M1 j \<longleftrightarrow> j = 62 \<or> j = 63" "bit B j \<longleftrightarrow> j = 63"
      "bit M2 j \<longleftrightarrow> 76 \<le> j \<and> j < 80" for j
    by (simp_all only: M1_def B_def M2_def bit_variant_mask bit_variant_bits bit_version_mask)
  have "set_version n v = (((n AND NOT M1) OR B) AND NOT M2) OR push_bit 76 v"
    by (simp only: set_version_def Let_def M1_def B_def M2_def)
  then show ?thesis
    by (auto simp add: bit_or_iff bit_and_iff bit_not_iff bit_push_bit_iff b)
qed

lemma nibble_div_mod: "(x::int) div 16 ^ j mod 16 = take_bit 4 (drop_bit (4 * j) x)"
  by (simp add: take_bit_eq_mod drop_bit_eq_div power_mult)

lemma set_version_version:
  assumes "0 \<le> v" "v < 16"
  shows "take_bit 4 (drop_bit 76 (set_version n v)) = v"
proof -
  have v: "take_bit 4 v = v"
    using assms by (simp add: take_bit_int_eq_self)
  have "take_bit 4 (drop_bit 76 (set_version n v)) = take_bit 4 v"
    by (rule bit_eqI) (auto simp add: bit_simps bit_set_version)
  then show ?thesis using v by simp
qed

lemma set_version_variant:
  "take_bit 2 (drop_bit 62 (set_version n v)) = 2"
proof -
  have "take_bit 2 (drop_bit 62 (set_version n v)) = push_bit 1 1"
    by (rule bit_eqI) (auto simp add: bit_simps bit_set_version)
  then show ?thesis by simp
qed

lemma set_version_id:
  assumes "take_bit 4 (drop_bit 76 n) = v" and "take_bit 2 (drop_bit 62 n) = 2"
  shows "set_version n v = n"
proof (rule bit_eqI)
  fix k
  have v: "bit v j \<longleftrightarrow> j < 4 \<and> bit n (76 + j)" for j
    unfolding assms(1) [symmetric] by (simp add: bit_simps add.commute)
  have "bit (take_bit 2 (drop_bit 62 n)) j \<longleftrightarrow> j = 1" for j
    unfolding assms(2) by (rule bit_two)
  then have r: "j < 2 \<and> bit n (62 + j) \<longleftrightarrow> j = 1" for j
    by (simp add: bit_simps add.commute)
  have "bit n 63" "\<not> bit n 62"
    using r [of 1] r [of 0] by simp_all
  then show "bit (set_version n v) k = bit n k"
    by (auto simp: bit_set_version v)
qed

lemma set_version_range:
  assumes "0 \<le> n" "n < 2 ^ 128" "0 \<le> v" "v < 16"
  shows "0 \<le> set_version n v \<and> set_version n v < 2 ^ 128"
proof -
  have "take_bit 128 (set_version n v) = set_version n v"
  proof (rule bit_eqI)
    fix k
    have n: "take_bit 128 n = n" and v: "take_bit 4 v = v"
      using assms by (simp_all add: take_bit_int_eq_self)
    have "bit n k \<Longrightarrow> k < 128"
      using n by (metis bit_take_bit_iff)
    moreover have "bit v j \<Longrightarrow> j < 4" for j
      using v by (metis bit_take_bit_iff)
    ultimately show "bit (take_bit 128 (set_version n v)) k = bit (set_version n v) k"
      by (fastforce simp add: bit_simps bit_set_version)
  qed
  then show ?thesis
    by (metis take_bit_nonnegative take_bit_int_less_exp)
qed

lemma nat_nibble:
  assumes "0 \<le> x"
  shows "nat x div 16 ^ j mod 16 = nat (take_bit 4 (drop_bit (4 * j) x))"
proof -
  have "int (nat x div 16 ^ j mod 16) = x div 16 ^ j mod 16"
    using assms by (simp add: zdiv_int zmod_int)
  then show ?thesis
    by (simp add: nibble_div_mod nat_eq_iff)
qed

lemma hexchar_inj: "a < 16 \<Longrightarrow> b < 16 \<Longrightarrow> hexchar a = hexchar b \<Longrightarrow> a = b"
  by (metis hexval_char_hexchar)

lemma hexchar_variant: "d < 16 \<Longrightarrow> hexchar d \<in> {56, 57, 97, 98} \<longleftrightarrow> d div 4 = 2"
  by (auto simp: hexchar_def)

lemma variant_bits: "take_bit 4 (drop_bit 60 x) div 4 = take_bit 2 (drop_bit 62 (x::int))"
proof -
  have "take_bit 4 (drop_bit 60 x) div 4 = drop_bit 2 (take_bit 4 (drop_bit 60 x))"
    by (simp add: drop_bit_eq_div)
  also have "\<dots> = take_bit 2 (drop_bit 62 x)"
    by (simp add: drop_bit_take_bit)
  finally show ?thesis .
qed

subsection \<open>The canonical form\<close>

lemma set_hyphenate: "set (hyphenate ds) \<subseteq> insert 45 (set ds)"
  by (auto simp: hyphenate_def dest: in_set_takeD in_set_dropD)

lemma filter_hyphenate:
  assumes "45 \<notin> set ds"
  shows "filter (\<lambda>c. c \<noteq> 45) (hyphenate ds) = ds"
proof -
  have f: "filter (\<lambda>c. c \<noteq> 45) xs = xs" if "set xs \<subseteq> set ds" for xs
    using that assms by (auto simp: filter_id_conv)
  have "filter (\<lambda>c. c \<noteq> 45) (hyphenate ds) =
      take 8 ds @ take 4 (drop 8 ds) @ take 4 (drop 12 ds) @ take 4 (drop 16 ds) @ drop 20 ds"
    by (simp add: hyphenate_def f set_take_subset set_drop_subset
        subset_trans [OF set_take_subset set_drop_subset])
  also have "\<dots> = take 8 ds @ take 4 (drop 8 ds) @ take 4 (drop 12 ds) @ drop 16 ds"
    using append_take_drop_id [of 4 "drop 16 ds"] by simp
  also have "\<dots> = take 8 ds @ take 4 (drop 8 ds) @ drop 12 ds"
    using append_take_drop_id [of 4 "drop 12 ds"] by simp
  also have "\<dots> = take 8 ds @ drop 8 ds"
    using append_take_drop_id [of 4 "drop 8 ds"] by simp
  finally show ?thesis by simp
qed

lemma lhex_not_hyphen: "list_all lhex ds \<Longrightarrow> 45 \<notin> set ds"
  by (auto simp: list_all_iff lhex_def ascii_digit_def)

lemma hyphenate_nth:
  assumes "length ds = 32"
  shows "length (hyphenate ds) = 36" and "hyphenate ds ! 14 = ds ! 12"
    and "hyphenate ds ! 19 = ds ! 16"
    and "hd (hyphenate ds) = hd ds" and "last (hyphenate ds) = last ds"
proof -
  obtain a where a: "a = take 8 ds" "length a = 8" using assms by simp
  obtain b where b: "b = take 4 (drop 8 ds)" "length b = 4" using assms by simp
  obtain c where c: "c = take 4 (drop 12 ds)" "length c = 4" using assms by simp
  obtain d where d: "d = take 4 (drop 16 ds)" "length d = 4" using assms by simp
  obtain e where e: "e = drop 20 ds" "length e = 12" using assms by simp
  have h: "hyphenate ds = a @ 45 # b @ 45 # c @ 45 # d @ 45 # e"
    by (simp add: hyphenate_def a b c d e)
  show "length (hyphenate ds) = 36"
    by (simp add: h a(2) b(2) c(2) d(2) e(2))
  have "hyphenate ds ! 14 = c ! 0"
    unfolding h using a(2) b(2) c(2) by (simp add: nth_append nth_Cons')
  then show "hyphenate ds ! 14 = ds ! 12"
    using assms by (simp add: c(1))
  have "hyphenate ds ! 19 = d ! 0"
    unfolding h using a(2) b(2) c(2) d(2) by (simp add: nth_append nth_Cons')
  then show "hyphenate ds ! 19 = ds ! 16"
    using assms by (simp add: d(1))
  have "hd (hyphenate ds) = hd a"
    unfolding h using a(2) by (cases a) simp_all
  then show "hd (hyphenate ds) = hd ds"
    by (simp add: a(1))
  have "e \<noteq> []" using e(2) by auto
  then have "last (hyphenate ds) = last e"
    unfolding h by simp
  then show "last (hyphenate ds) = last ds"
    using assms by (simp add: e(1))
qed

lemma canonical_hyphenate:
  assumes "length ds = 32" and "list_all lhex ds"
  shows "canonical_uuid (hyphenate ds)"
  using assms by (simp add: canonical_uuid_def Let_def filter_hyphenate lhex_not_hyphen)

lemma canonicalD:
  assumes "canonical_uuid s"
  obtains ds where "length ds = 32" and "list_all lhex ds" and "s = hyphenate ds"
    and "filter (\<lambda>c. c \<noteq> 45) s = ds"
  using assms by (auto simp: canonical_uuid_def Let_def)

lemma uuid_str_in_range:
  assumes "0 \<le> n" and "n < 2 ^ 128"
  shows "uuid_str n = hyphenate (hexstr 32 (nat n))"
proof -
  have "nat n < 16 ^ 32"
    using assms by (simp add: nat_less_iff)
  from zfill_hex_digits [OF _ this] show ?thesis
    using assms by (simp add: uuid_str_def format_032x_def)
qed

subsection \<open>Construction and matching\<close>

lemma UUID_raises: "UUID I s version = Inl e \<Longrightarrow> e = ValueError"
  by (auto simp: UUID_def Let_def split: if_splits option.splits)

lemma UUID_Some_cases:
  assumes "UUID I s (Some v) = Inr u"
  obtains n where "0 \<le> n" and "n < 2 ^ 128" and "1 \<le> v" and "v \<le> 5" and "u = set_version n v"
  using assms by (auto simp: UUID_def Let_def push_bit_eq_mult split: if_splits option.splits)

lemma UUID_canonical:
  assumes "hex_parser I" and "canonical_uuid s" and "1 \<le> v" and "v \<le> 5"
  obtains ds where "length ds = 32" and "list_all lhex ds" and "s = hyphenate ds"
    and "UUID I s (Some v) = Inr (set_version (int (hexval ds)) v)"
proof -
  from assms(2) obtain ds where ds: "length ds = 32" "list_all lhex ds" "s = hyphenate ds"
      "filter (\<lambda>c. c \<noteq> 45) s = ds"
    by (rule canonicalD)
  have chars: "c = 45 \<or> lhex c" if "c \<in> set s" for c
    using that set_hyphenate [of ds] ds(2,3) by (auto simp: list_all_iff)
  have ne: "s \<noteq> []"
    using hyphenate_nth(1) [OF ds(1)] ds(3) by auto
  have no: "117 \<notin> set s" "123 \<notin> set s" "125 \<notin> set s"
    using chars [of 117] chars [of 123] chars [of 125]
    by (auto simp: lhex_def ascii_digit_def)
  have 1: "str_replace s (py ''urn:'') [] = s"
    using no(1) by (simp add: str_replace_def py_def replace_from_absent)
  have 2: "str_replace s (py ''uuid:'') [] = s"
    using no(1) by (simp add: str_replace_def py_def replace_from_absent)
  have "hd s \<in> set s" and "last s \<in> set s"
    using ne by simp_all
  then have "hd s \<notin> set (py ''{}'')" and "last s \<notin> set (py ''{}'')"
    using no(2,3) by (auto simp: py_def)
  from strip_id [OF ne this] have 3: "strip s (py ''{}'') = s" .
  have 4: "str_replace s (py ''-'') [] = ds"
    by (simp add: str_replace_def py_def replace_from_single ds(4))
  have 5: "I ds = Some (int (hexval ds))"
    using assms(1) ds(1,2) by (simp add: hex_parser_def)
  have "hexval ds < 16 ^ 32"
    using hexval_less [OF ds(2)] ds(1) by simp
  then have "int (hexval ds) < int (16 ^ 32)"
    by (simp only: of_nat_less_iff)
  then have 6: "int (hexval ds) < 2 ^ 128"
    by simp
  have "UUID I s (Some v) = Inr (set_version (int (hexval ds)) v)"
    using assms(3,4) 6 by (simp add: UUID_def 1 2 3 4 5 ds(1) push_bit_eq_mult)
  with ds(1,2,3) show ?thesis by (rule that)
qed

lemma matches_rfc4122:
  assumes "spec_version_matches I s v"
  shows "rfc4122_string v s"
proof -
  from assms obtain u where u: "UUID I s (Some v) = Inr u" and s: "uuid_str u = s"
    by (auto simp: spec_version_matches_def split: sum.splits)
  from u obtain n where n: "0 \<le> n" "n < 2 ^ 128" "1 \<le> v" "v \<le> 5" "u = set_version n v"
    by (rule UUID_Some_cases)
  have v: "0 \<le> v" "v < 16" using n(3,4) by simp_all
  have r: "0 \<le> u" "u < 2 ^ 128"
    using set_version_range [OF n(1,2) v] n(5) by simp_all
  let ?ds = "hexstr 32 (nat u)"
  have str: "s = hyphenate ?ds"
    using uuid_str_in_range [OF r] s by simp
  have can: "canonical_uuid s"
    unfolding str by (rule canonical_hyphenate) (simp_all add: lhex_hexstr)
  have "s ! 14 = ?ds ! 12"
    unfolding str by (rule hyphenate_nth) simp
  also have "\<dots> = hexchar (nat u div 16 ^ 19 mod 16)"
    by (simp add: hexstr_nth)
  also have "\<dots> = hexchar (nat v)"
    using nat_nibble [OF r(1), of 19] set_version_version [OF v, of n] n(5) by simp
  finally have ver: "s ! 14 = hexchar (nat v)" .
  have "s ! 19 = ?ds ! 16"
    unfolding str by (rule hyphenate_nth) simp
  also have "\<dots> = hexchar (nat u div 16 ^ 15 mod 16)"
    by (simp add: hexstr_nth)
  finally have var: "s ! 19 = hexchar (nat u div 16 ^ 15 mod 16)" .
  have "int (nat u div 16 ^ 15 mod 16 div 4) = take_bit 4 (drop_bit 60 u) div 4"
    using nat_nibble [OF r(1), of 15] by (simp add: zdiv_int)
  also have "\<dots> = 2"
    using variant_bits [of u] set_version_variant [of n v] n(5) by simp
  finally have "nat u div 16 ^ 15 mod 16 div 4 = 2" by simp
  then have "s ! 19 \<in> {56, 57, 97, 98}"
    unfolding var by (subst hexchar_variant) simp_all
  then show ?thesis
    using can ver v by (simp add: rfc4122_string_def)
qed

lemma rfc4122_matches:
  assumes "hex_parser I" and "rfc4122_string v s" and "1 \<le> v" and "v \<le> 5"
  shows "spec_version_matches I s v"
proof -
  have can: "canonical_uuid s" and ver: "s ! 14 = hexchar (nat v)"
    and var: "s ! 19 \<in> {56, 57, 97, 98}"
    using assms(2) by (simp_all add: rfc4122_string_def)
  from assms(1) can assms(3,4)
  obtain ds where ds: "length ds = 32" "list_all lhex ds" "s = hyphenate ds"
      "UUID I s (Some v) = Inr (set_version (int (hexval ds)) v)"
    by (rule UUID_canonical)
  let ?n = "int (hexval ds)"
  have rt: "hexstr 32 (hexval ds) = ds"
    using hexstr_hexval [OF ds(2)] ds(1) by simp
  have n0: "0 \<le> ?n" by simp
  have "hexval ds < 16 ^ 32"
    using hexval_less [OF ds(2)] ds(1) by simp
  then have "?n < int (16 ^ 32)"
    by (simp only: of_nat_less_iff)
  then have n1: "?n < 2 ^ 128"
    by simp
  have "ds ! 12 = hexchar (hexval ds div 16 ^ 19 mod 16)"
    using hexstr_nth [of 12 32 "hexval ds"] rt by simp
  moreover have "s ! 14 = ds ! 12"
    unfolding ds(3) using ds(1) by (rule hyphenate_nth)
  ultimately have "hexchar (hexval ds div 16 ^ 19 mod 16) = hexchar (nat v)"
    using ver by simp
  moreover have "hexval ds div 16 ^ 19 mod 16 < 16" and "nat v < 16"
    using assms(4) by simp_all
  ultimately have "hexval ds div 16 ^ 19 mod 16 = nat v"
    using hexchar_inj by blast
  then have "nat (take_bit 4 (drop_bit 76 ?n)) = nat v"
    using nat_nibble [OF n0, of 19] by simp
  then have a: "take_bit 4 (drop_bit 76 ?n) = v"
    using assms(3) by (simp add: nat_eq_iff)
  have "ds ! 16 = hexchar (hexval ds div 16 ^ 15 mod 16)"
    using hexstr_nth [of 16 32 "hexval ds"] rt by simp
  moreover have "s ! 19 = ds ! 16"
    unfolding ds(3) using ds(1) by (rule hyphenate_nth)
  ultimately have "hexchar (hexval ds div 16 ^ 15 mod 16) \<in> {56, 57, 97, 98}"
    using var by simp
  then have "hexval ds div 16 ^ 15 mod 16 div 4 = 2"
    by (subst (asm) hexchar_variant) simp_all
  then have "nat (take_bit 4 (drop_bit 60 ?n)) div 4 = 2"
    using nat_nibble [OF n0, of 15] by simp
  then have "int (nat (take_bit 4 (drop_bit 60 ?n)) div 4) = 2"
    by simp
  then have "take_bit 4 (drop_bit 60 ?n) div 4 = 2"
    by (simp add: zdiv_int)
  then have b: "take_bit 2 (drop_bit 62 ?n) = 2"
    by (simp add: variant_bits)
  have "set_version ?n v = ?n"
    using a b by (rule set_version_id)
  moreover have "uuid_str ?n = s"
    using uuid_str_in_range [OF n0 n1] rt ds(3) by simp
  ultimately show ?thesis
    by (simp add: spec_version_matches_def ds(4))
qed

lemma uuid_probe_find:
  "uuid_probe I s vs = Inr (List.find (spec_version_matches I s) vs)"
proof (induction vs)
  case Nil
  then show ?case by simp
next
  case (Cons v vs)
  show ?case
  proof (cases "UUID I s (Some v)")
    case (Inl e)
    then have "e = ValueError" by (rule UUID_raises)
    then show ?thesis
      using Inl Cons.IH by (simp add: spec_version_matches_def except_def)
  next
    case (Inr u)
    then show ?thesis
      using Cons.IH by (simp add: spec_version_matches_def)
  qed
qed

lemma get_uuid_version_find:
  "get_uuid_version I s = Inr (List.find (spec_version_matches I s) [1, 3, 4, 5])"
  by (simp add: get_uuid_version_def SUPPORTED_UUID_VERSIONS_def uuid_probe_find)

lemma rfc4122_version_unique:
  assumes "rfc4122_string v s" and "rfc4122_string w s"
  shows "v = w"
proof -
  have "hexchar (nat v) = hexchar (nat w)" and "v < 16" and "w < 16"
    and "0 \<le> v" and "0 \<le> w"
    using assms by (simp_all add: rfc4122_string_def)
  moreover from this have "nat v < 16" and "nat w < 16"
    by simp_all
  ultimately have "nat v = nat w"
    using hexchar_inj by blast
  then show ?thesis
    using \<open>0 \<le> v\<close> \<open>0 \<le> w\<close> by simp
qed

lemma rfc4122_probe:
  assumes "hex_parser I" and "rfc4122_string v s" and "1 \<le> w" and "w \<le> 5"
  shows "spec_version_matches I s w \<longleftrightarrow> w = v"
  using assms matches_rfc4122 rfc4122_matches rfc4122_version_unique by blast

lemma rejected_probe:
  assumes "hex_parser I" and "rfc4122_string v s" and "1 \<le> w" and "w \<le> 5" and "w \<noteq> v"
  shows "\<exists>u. UUID I s (Some w) = Inr u \<and> uuid_str u \<noteq> s"
proof -
  have "canonical_uuid s"
    using assms(2) by (simp add: rfc4122_string_def)
  with assms(1) obtain ds where "UUID I s (Some w) = Inr (set_version (int (hexval ds)) w)"
    using assms(3,4) by (rule UUID_canonical)
  moreover have "\<not> spec_version_matches I s w"
    using rfc4122_probe [OF assms(1-4)] assms(5) by simp
  ultimately show ?thesis
    by (simp add: spec_version_matches_def)
qed

lemma hex_parser_strict: "hex_parser int16_strict"
  by (auto simp: hex_parser_def int16_strict_def)

lemma sample_rfc4122: "rfc4122_string 4 (py ''c9bf9e57-1685-4c89-bafb-ff5af830be8a'')"
  by (simp add: rfc4122_string_def canonical_uuid_def hyphenate_def py_def lhex_def
      ascii_digit_def hexchar_def)

lemma short_not_canonical: "\<not> canonical_uuid (py ''c9bf9e58'')"
  by (simp add: canonical_uuid_def py_def)

text \<open>
  Claim C2. \<^verbatim>\<open>get_uuid_version\<close> returns the first of the versions 1, 3, 4, 5, in this
  order, whose probe matches: the construction of a UUID of that version from the input
  does not fail and the string of the UUID is the input; it returns \<^verbatim>\<open>None\<close> when no
  probe matches. For the canonical string of a version-4 UUID it returns 4, the probes
  of the versions 1 and 3 constructing a UUID whose string differs from the input; for a
  string that is not in canonical form it returns \<^verbatim>\<open>None\<close>.
\<close>

theorem get_uuid_version_first_match:
  "get_uuid_version I uid = Inr (List.find (spec_version_matches I uid) [1, 3, 4, 5]) \<and>
   (hex_parser I \<and> rfc4122_string 4 uid \<longrightarrow>
      get_uuid_version I uid = Inr (Some 4) \<and>
      (\<exists>u. UUID I uid (Some 1) = Inr u \<and> uuid_str u \<noteq> uid) \<and>
      (\<exists>u. UUID I uid (Some 3) = Inr u \<and> uuid_str u \<noteq> uid)) \<and>
   (\<not> canonical_uuid uid \<longrightarrow> get_uuid_version I uid = Inr None)"
proof -
  have a: "get_uuid_version I uid = Inr (Some 4)"
    and b: "\<exists>u. UUID I uid (Some 1) = Inr u \<and> uuid_str u \<noteq> uid"
    and c: "\<exists>u. UUID I uid (Some 3) = Inr u \<and> uuid_str u \<noteq> uid"
    if h: "hex_parser I" and r: "rfc4122_string 4 uid"
  proof -
    have "\<not> spec_version_matches I uid 1" "\<not> spec_version_matches I uid 3"
      "spec_version_matches I uid 4"
      using rfc4122_probe [OF h r, of 1] rfc4122_probe [OF h r, of 3]
        rfc4122_probe [OF h r, of 4] by simp_all
    then show "get_uuid_version I uid = Inr (Some 4)"
      by (simp add: get_uuid_version_find)
    show "\<exists>u. UUID I uid (Some 1) = Inr u \<and> uuid_str u \<noteq> uid"
      using rejected_probe [OF h r, of 1] by simp
    show "\<exists>u. UUID I uid (Some 3) = Inr u \<and> uuid_str u \<noteq> uid"
      using rejected_probe [OF h r, of 3] by simp
  qed
  have d: "get_uuid_version I uid = Inr None" if "\<not> canonical_uuid uid"
  proof -
    have "\<not> spec_version_matches I uid v" for v
      using that matches_rfc4122 [of I uid v] by (auto simp: rfc4122_string_def)
    then show ?thesis
      by (simp add: get_uuid_version_find)
  qed
  show ?thesis
    using a b c d by (simp add: get_uuid_version_find)
qed

theorem get_uuid_version_first_match_witness:
  "hex_parser int16_strict \<and>
   rfc4122_string 4 (py ''c9bf9e57-1685-4c89-bafb-ff5af830be8a'') \<and>
   get_uuid_version int16_strict (py ''c9bf9e57-1685-4c89-bafb-ff5af830be8a'') = Inr (Some 4) \<and>
   \<not> canonical_uuid (py ''c9bf9e58'') \<and>
   get_uuid_version int16_strict (py ''c9bf9e58'') = Inr None"
proof -
  have a: "get_uuid_version int16_strict (py ''c9bf9e57-1685-4c89-bafb-ff5af830be8a'')
            = Inr (Some 4)"
    using get_uuid_version_first_match [of int16_strict "py ''c9bf9e57-1685-4c89-bafb-ff5af830be8a''"]
      hex_parser_strict sample_rfc4122
    by blast
  have b: "get_uuid_version int16_strict (py ''c9bf9e58'') = Inr None"
    using get_uuid_version_first_match [of int16_strict "py ''c9bf9e58''"] short_not_canonical
    by blast
  show ?thesis
    using a b hex_parser_strict sample_rfc4122 short_not_canonical by blast
qed

text \<open>
  Claim C7. \<^verbatim>\<open>is_valid_uuid\<close> returns \<^verbatim>\<open>False\<close> for \<^verbatim>\<open>None\<close> and for the empty string.
  For another string it returns, without a version, whether \<^verbatim>\<open>get_uuid_version\<close> finds
  a version, that is whether the probe of one of the versions 1, 3, 4, 5 matches; with a
  version, whether the probe of that version matches. The four examples of the
  specification evaluate as it says.
\<close>

theorem is_valid_uuid_cases:
  "is_valid_uuid I None version = Inr False \<and>
   is_valid_uuid I (Some []) version = Inr False \<and>
   (s \<noteq> [] \<longrightarrow> is_valid_uuid I (Some s) None = Inr (get_uuid_version I s \<noteq> Inr None)) \<and>
   (s \<noteq> [] \<longrightarrow> is_valid_uuid I (Some s) None =
      Inr (list_ex (spec_version_matches I s) [1, 3, 4, 5])) \<and>
   (s \<noteq> [] \<longrightarrow> is_valid_uuid I (Some s) (Some v) = Inr (spec_version_matches I s v)) \<and>
   (hex_parser I \<longrightarrow>
      is_valid_uuid I (Some (py ''c9bf9e57-1685-4c89-bafb-ff5af830be8a'')) None = Inr True) \<and>
   is_valid_uuid I (Some (py ''c9bf9e58'')) None = Inr False \<and>
   is_valid_uuid I (Some (py '''')) None = Inr False \<and>
   is_valid_uuid I None None = Inr False"
proof -
  have a: "is_valid_uuid I (Some s) (Some v) = Inr (spec_version_matches I s v)" if "s \<noteq> []"
  proof (cases "UUID I s (Some v)")
    case (Inl e)
    then have "e = ValueError" by (rule UUID_raises)
    then show ?thesis
      using Inl that by (simp add: is_valid_uuid_def spec_version_matches_def except_def)
  next
    case (Inr u)
    then show ?thesis
      using that by (simp add: is_valid_uuid_def spec_version_matches_def)
  qed
  have b: "is_valid_uuid I (Some s) None = Inr (get_uuid_version I s \<noteq> Inr None)" if "s \<noteq> []"
    using that by (simp add: is_valid_uuid_def get_uuid_version_find)
  have c: "is_valid_uuid I (Some t) None = Inr (list_ex (spec_version_matches I t) [1, 3, 4, 5])"
    if "t \<noteq> []" for t
    using that by (simp add: is_valid_uuid_def get_uuid_version_find)
  have d: "is_valid_uuid I (Some (py ''c9bf9e57-1685-4c89-bafb-ff5af830be8a'')) None = Inr True"
    if h: "hex_parser I"
  proof -
    have "spec_version_matches I (py ''c9bf9e57-1685-4c89-bafb-ff5af830be8a'') 4"
      using rfc4122_matches [OF h sample_rfc4122] by simp
    moreover have "py ''c9bf9e57-1685-4c89-bafb-ff5af830be8a'' \<noteq> []"
      by (simp add: py_def)
    ultimately show ?thesis
      by (simp add: c)
  qed
  have e: "is_valid_uuid I (Some (py ''c9bf9e58'')) None = Inr False"
  proof -
    have "\<not> spec_version_matches I (py ''c9bf9e58'') w" for w
      using short_not_canonical matches_rfc4122 [of I "py ''c9bf9e58''" w]
      by (auto simp: rfc4122_string_def)
    moreover have "py ''c9bf9e58'' \<noteq> []"
      by (simp add: py_def)
    ultimately show ?thesis
      by (simp add: c)
  qed
  have f: "is_valid_uuid I None version = Inr False" "is_valid_uuid I (Some []) version = Inr False"
    "is_valid_uuid I (Some (py '''')) None = Inr False" "is_valid_uuid I None None = Inr False"
    by (simp_all add: is_valid_uuid_def py_def)
  show ?thesis
    using a b c d e f by simp
qed

theorem is_valid_uuid_cases_witness:
  "hex_parser int16_strict \<and>
   is_valid_uuid int16_strict (Some (py ''c9bf9e57-1685-4c89-bafb-ff5af830be8a'')) None = Inr True \<and>
   is_valid_uuid int16_strict (Some (py ''c9bf9e57-1685-4c89-bafb-ff5af830be8a'')) (Some 4)
     = Inr True \<and>
   is_valid_uuid int16_strict (Some (py ''c9bf9e57-1685-4c89-bafb-ff5af830be8a'')) (Some 1)
     = Inr False \<and>
   is_valid_uuid int16_strict (Some (py ''c9bf9e58'')) (Some 4) = Inr False"
proof -
  let ?s = "py ''c9bf9e57-1685-4c89-bafb-ff5af830be8a''"
  have ne: "?s \<noteq> []" "py ''c9bf9e58'' \<noteq> []"
    by (simp_all add: py_def)
  have m: "spec_version_matches int16_strict ?s 4 = True"
    "spec_version_matches int16_strict ?s 1 = False"
    using rfc4122_probe [OF hex_parser_strict sample_rfc4122, of 4]
      rfc4122_probe [OF hex_parser_strict sample_rfc4122, of 1] by simp_all
  have n: "spec_version_matches int16_strict (py ''c9bf9e58'') 4 = False"
    using short_not_canonical matches_rfc4122 [of int16_strict "py ''c9bf9e58''" 4]
    by (auto simp: rfc4122_string_def)
  have a: "is_valid_uuid int16_strict (Some ?s) None = Inr True"
    using is_valid_uuid_cases [of int16_strict None ?s 4] hex_parser_strict by blast
  have "is_valid_uuid int16_strict (Some ?s) (Some 4) = Inr (spec_version_matches int16_strict ?s 4)"
    using is_valid_uuid_cases [of int16_strict None ?s 4] ne(1) by blast
  then have b: "is_valid_uuid int16_strict (Some ?s) (Some 4) = Inr True"
    by (simp only: m)
  have "is_valid_uuid int16_strict (Some ?s) (Some 1) = Inr (spec_version_matches int16_strict ?s 1)"
    using is_valid_uuid_cases [of int16_strict None ?s 1] ne(1) by blast
  then have c: "is_valid_uuid int16_strict (Some ?s) (Some 1) = Inr False"
    by (simp only: m)
  have "is_valid_uuid int16_strict (Some (py ''c9bf9e58'')) (Some 4)
          = Inr (spec_version_matches int16_strict (py ''c9bf9e58'') 4)"
    using is_valid_uuid_cases [of int16_strict None "py ''c9bf9e58''" 4] ne(2) by blast
  then have d: "is_valid_uuid int16_strict (Some (py ''c9bf9e58'')) (Some 4) = Inr False"
    by (simp only: n)
  show ?thesis
    using a b c d hex_parser_strict by blast
qed

end
